theory Spec2Isabelle
  imports Complex_Main "HOL-Library.Extended_Nat" "HOL-Library.Product_Lexorder"
begin

section \<open>Python values used by the maze programs\<close>

text \<open>
  Positions are tuples \<open>(x, y)\<close> of Python integers. A character grid is a list of rows
  (\<open>grid[y][x]\<close>), a fire-time matrix holds step counts or \<open>INF = float("inf")\<close>, which
  is the \<open>\<infinity>\<close> of \<open>enat\<close>. Indexing a list raises \<open>IndexError\<close> out of range and
  counts from the end for a negative index; reading a missing dictionary key raises
  \<open>KeyError\<close>.
\<close>

type_synonym pos = "int \<times> int"
type_synonym grid = "char list list"
type_synonym fire_map = "enat list list"

datatype error = IndexError | KeyError

definition py_index :: "'a list \<Rightarrow> int \<Rightarrow> error + 'a" where
  "py_index xs i =
     (if 0 \<le> i \<and> i < int (length xs) then Inr (xs ! nat i)
      else if i < 0 \<and> 0 \<le> int (length xs) + i then Inr (xs ! nat (int (length xs) + i))
      else Inl IndexError)"

definition cell_at :: "'a list list \<Rightarrow> int \<Rightarrow> int \<Rightarrow> error + 'a" where
  \<comment> \<open>\<open>m[y][x]\<close>\<close>
  "cell_at m x y = (case py_index m y of Inl e \<Rightarrow> Inl e | Inr row \<Rightarrow> py_index row x)"

definition in_bounds :: "int \<Rightarrow> int \<Rightarrow> int \<Rightarrow> int \<Rightarrow> bool" where
  \<comment> \<open>the local function \<open>in_bounds(x, y)\<close>, with the \<open>cols\<close> and \<open>rows\<close> it closes over\<close>
  "in_bounds cols rows x y \<longleftrightarrow> 0 \<le> x \<and> x < cols \<and> 0 \<le> y \<and> y < rows"

definition directions :: "(int \<times> int) list" where
  "directions = [(0, 1), (0, -1), (1, 0), (-1, 0)]"

section \<open>Algorithm.py: compute_fire_time\<close>

text \<open>
  The writes \<open>fire_time[y][x] = v\<close> of \<open>compute_fire_time\<close> all stand behind a
  successful read at the same non-negative indices (or, in the seeding loops, at indices
  drawn from the ranges the matrix was built with), so they cannot raise and are plain
  list updates.
\<close>

definition store_at :: "'a list list \<Rightarrow> int \<Rightarrow> int \<Rightarrow> 'a \<Rightarrow> 'a list list" where
  \<comment> \<open>\<open>m[y][x] = v\<close>\<close>
  "store_at m x y v = m[nat y := (m ! nat y)[nat x := v]]"

type_synonym fire_state = "fire_map \<times> pos list"

fun seed_row :: "grid \<Rightarrow> int \<Rightarrow> int list \<Rightarrow> fire_state \<Rightarrow> error + fire_state" where
  "seed_row grid y [] s = Inr s"
| "seed_row grid y (x # xs) s =
     (case cell_at grid x y of
        Inl e \<Rightarrow> Inl e
      | Inr c \<Rightarrow>
          if c = CHR ''F'' then seed_row grid y xs (store_at (fst s) x y 0, snd s @ [(x, y)])
          else seed_row grid y xs s)"

fun seed_rows :: "grid \<Rightarrow> int \<Rightarrow> int list \<Rightarrow> fire_state \<Rightarrow> error + fire_state" where
  "seed_rows grid cols [] s = Inr s"
| "seed_rows grid cols (y # ys) s =
     (case seed_row grid y [0..cols - 1] s of
        Inl e \<Rightarrow> Inl e
      | Inr s' \<Rightarrow> seed_rows grid cols ys s')"

definition spread ::
  "grid \<Rightarrow> int \<Rightarrow> int \<Rightarrow> pos \<Rightarrow> enat \<Rightarrow> int \<times> int \<Rightarrow> fire_state \<Rightarrow> error + fire_state" where
  "spread grid rows cols current t d s =
     (let nx = fst current + fst d; ny = snd current + snd d in
      if \<not> in_bounds cols rows nx ny then Inr s
      else
        (case cell_at grid nx ny of
           Inl e \<Rightarrow> Inl e
         | Inr cell \<Rightarrow>
             if cell = CHR ''#'' then Inr s
             else
               (case cell_at (fst s) nx ny of
                  Inl e \<Rightarrow> Inl e
                | Inr f \<Rightarrow>
                    if f > t + 1 then Inr (store_at (fst s) nx ny (t + 1), snd s @ [(nx, ny)])
                    else Inr s)))"

fun spread_all ::
  "grid \<Rightarrow> int \<Rightarrow> int \<Rightarrow> pos \<Rightarrow> enat \<Rightarrow> (int \<times> int) list \<Rightarrow> fire_state \<Rightarrow> error + fire_state" where
  "spread_all grid rows cols current t [] s = Inr s"
| "spread_all grid rows cols current t (d # ds) s =
     (case spread grid rows cols current t d s of
        Inl e \<Rightarrow> Inl e
      | Inr s' \<Rightarrow> spread_all grid rows cols current t ds s')"

definition inf_count :: "fire_map \<Rightarrow> nat" where
  "inf_count m = (\<Sum>row\<leftarrow>m. \<Sum>v\<leftarrow>row. if v = \<infinity> then 1 else 0)"

definition fin_sum :: "fire_map \<Rightarrow> nat" where
  "fin_sum m = (\<Sum>row\<leftarrow>m. \<Sum>v\<leftarrow>row. case v of enat n \<Rightarrow> n | \<infinity> \<Rightarrow> 0)"

definition fire_order :: "(fire_state \<times> fire_state) set" where
  "fire_order = inv_image (less_than <*lex*> less_than <*lex*> less_than)
     (\<lambda>s. (inf_count (fst s), fin_sum (fst s), length (snd s)))"

lemma wf_fire_order: "wf fire_order"
  unfolding fire_order_def by (intro wf_inv_image wf_lex_prod wf_less_than)

lemma sum_list_map_update:
  fixes f :: "'a \<Rightarrow> nat"
  shows "i < length xs \<Longrightarrow> sum_list (map f (xs[i := v])) + f (xs ! i) = sum_list (map f xs) + f v"
proof (induction xs arbitrary: i)
  case Nil
  then show ?case by simp
next
  case (Cons a xs)
  then show ?case by (cases i) (auto simp: add.assoc add.left_commute)
qed

lemma sum_matrix_update:
  fixes f :: "'a \<Rightarrow> nat"
  assumes "j < length m" "i < length (m ! j)"
  shows "(\<Sum>row\<leftarrow>m[j := (m ! j)[i := v]]. \<Sum>a\<leftarrow>row. f a) + f (m ! j ! i)
       = (\<Sum>row\<leftarrow>m. \<Sum>a\<leftarrow>row. f a) + f v"
proof -
  have "(\<Sum>row\<leftarrow>m[j := (m ! j)[i := v]]. \<Sum>a\<leftarrow>row. f a) + (\<Sum>a\<leftarrow>m ! j. f a)
      = (\<Sum>row\<leftarrow>m. \<Sum>a\<leftarrow>row. f a) + (\<Sum>a\<leftarrow>(m ! j)[i := v]. f a)"
    using assms(1) by (rule sum_list_map_update)
  moreover have "(\<Sum>a\<leftarrow>(m ! j)[i := v]. f a) + f (m ! j ! i) = (\<Sum>a\<leftarrow>m ! j. f a) + f v"
    using assms(2) by (rule sum_list_map_update)
  ultimately show ?thesis by linarith
qed

lemma py_index_nonneg:
  "py_index xs i = Inr v \<Longrightarrow> 0 \<le> i \<Longrightarrow> nat i < length xs \<and> v = xs ! nat i"
  by (auto simp: py_index_def split: if_splits)

lemma cell_at_nonneg:
  assumes "cell_at m x y = Inr v" "0 \<le> x" "0 \<le> y"
  shows "nat y < length m \<and> nat x < length (m ! nat y) \<and> v = m ! nat y ! nat x"
  using assms by (auto simp: cell_at_def split: sum.splits dest!: py_index_nonneg)

lemma store_lower_order:
  assumes "cell_at m x y = Inr f" "0 \<le> x" "0 \<le> y" "enat k < f"
  shows "((store_at m x y (enat k), q'), (m, q)) \<in> fire_order"
proof -
  from cell_at_nonneg[OF assms(1-3)]
  have j: "nat y < length m" and i: "nat x < length (m ! nat y)" and f: "f = m ! nat y ! nat x"
    by auto
  have c: "inf_count (store_at m x y (enat k)) + (if f = \<infinity> then 1 else 0) = inf_count m"
    using sum_matrix_update[OF j i, of "\<lambda>v. if v = \<infinity> then 1 else 0" "enat k"] f
    by (simp add: inf_count_def store_at_def)
  have s: "fin_sum (store_at m x y (enat k)) + (case f of enat n \<Rightarrow> n | \<infinity> \<Rightarrow> 0) = fin_sum m + k"
    using sum_matrix_update[OF j i, of "\<lambda>v. case v of enat n \<Rightarrow> n | \<infinity> \<Rightarrow> 0" "enat k"] f
    by (simp add: fin_sum_def store_at_def)
  show ?thesis
  proof (cases f)
    case (enat n)
    with c s assms(4) have "inf_count (store_at m x y (enat k)) = inf_count m"
      and "fin_sum (store_at m x y (enat k)) < fin_sum m"
      by auto
    then show ?thesis by (simp add: fire_order_def)
  next
    case infinity
    with c have "inf_count (store_at m x y (enat k)) < inf_count m" by simp
    then show ?thesis by (simp add: fire_order_def)
  qed
qed

definition fire_step :: "fire_state \<Rightarrow> fire_state \<Rightarrow> bool" where
  "fire_step s' s \<longleftrightarrow> (inf_count (fst s'), fin_sum (fst s')) = (inf_count (fst s), fin_sum (fst s))
       \<and> length (snd s') = length (snd s)
     \<or> ((inf_count (fst s'), fin_sum (fst s')), (inf_count (fst s), fin_sum (fst s)))
         \<in> less_than <*lex*> less_than"

lemma spread_step:
  assumes "spread grid rows cols current t d s = Inr s'"
  shows "fire_step s' s"
proof (cases "s' = s")
  case True
  then show ?thesis by (simp add: fire_step_def)
next
  case False
  with assms obtain f where nx: "0 \<le> fst current + fst d" and ny: "0 \<le> snd current + snd d"
    and rd: "cell_at (fst s) (fst current + fst d) (snd current + snd d) = Inr f"
    and lt: "t + 1 < f"
    and s': "s' = (store_at (fst s) (fst current + fst d) (snd current + snd d) (t + 1),
                   snd s @ [(fst current + fst d, snd current + snd d)])"
    by (auto simp: spread_def Let_def in_bounds_def split: if_splits sum.splits)
  from lt obtain k where k: "t + 1 = enat k" by (cases "t + 1") auto
  from store_lower_order[OF rd nx ny, of k "snd s'" "snd s"] lt k s'
  show ?thesis by (auto simp: fire_step_def fire_order_def)
qed

lemma fire_step_trans: "fire_step s'' s' \<Longrightarrow> fire_step s' s \<Longrightarrow> fire_step s'' s"
  by (auto simp: fire_step_def)

lemma spread_all_step:
  "spread_all grid rows cols current t ds s = Inr s' \<Longrightarrow> fire_step s' s"
proof (induction ds arbitrary: s)
  case Nil
  then show ?case by (simp add: fire_step_def)
next
  case (Cons d ds)
  then obtain s1 where 1: "spread grid rows cols current t d s = Inr s1"
    and 2: "spread_all grid rows cols current t ds s1 = Inr s'"
    by (auto split: sum.splits)
  from Cons.IH[OF 2] spread_step[OF 1] show ?case by (rule fire_step_trans)
qed

function fire_loop :: "grid \<Rightarrow> int \<Rightarrow> int \<Rightarrow> fire_state \<Rightarrow> error + fire_map" where
  "fire_loop grid rows cols s =
     (case snd s of
        [] \<Rightarrow> Inr (fst s)
      | current # q \<Rightarrow>
          (case cell_at (fst s) (fst current) (snd current) of
             Inl e \<Rightarrow> Inl e
           | Inr t \<Rightarrow>
               (case spread_all grid rows cols current t directions (fst s, q) of
                  Inl e \<Rightarrow> Inl e
                | Inr s' \<Rightarrow> fire_loop grid rows cols s')))"
  by pat_completeness auto
termination
proof (relation "inv_image fire_order (\<lambda>(grid, rows, cols, s). s)")
  show "wf (inv_image fire_order (\<lambda>(grid, rows, cols, s). s))"
    by (simp add: wf_fire_order)
next
  fix grid :: grid and rows cols :: int and s :: fire_state and current q t s'
  assume "snd s = current # q"
    and "spread_all grid rows cols current t directions (fst s, q) = Inr s'"
  from spread_all_step[OF this(2)] this(1)
  show "((grid, rows, cols, s'), (grid, rows, cols, s))
      \<in> inv_image fire_order (\<lambda>(grid, rows, cols, s). s)"
    by (auto simp: fire_step_def fire_order_def)
qed

definition compute_fire_time :: "grid \<Rightarrow> error + fire_map" where
  "compute_fire_time grid =
     (let rows = int (length grid) in
      (case py_index grid 0 of
         Inl e \<Rightarrow> Inl e
       | Inr row0 \<Rightarrow>
           (let cols = int (length row0);
                fire_time = replicate (nat rows) (replicate (nat cols) \<infinity>) in
            (case seed_rows grid cols [0..rows - 1] (fire_time, []) of
               Inl e \<Rightarrow> Inl e
             | Inr s \<Rightarrow> fire_loop grid rows cols s))))"

section \<open>Algorithm.py: the searches\<close>

subsection \<open>The Algorithm object and its heuristic\<close>

record Algorithm =
  expanded_nodes :: nat

definition Algorithm_init :: Algorithm where
  "Algorithm_init = \<lparr>expanded_nodes = 0\<rparr>"

definition hypot :: "real \<Rightarrow> real \<Rightarrow> real" where
  \<comment> \<open>\<open>math.hypot\<close>, taken as the exact Euclidean norm\<close>
  "hypot a b = sqrt (a\<^sup>2 + b\<^sup>2)"

declare hypot_def [code del]

definition heuristic :: "pos \<Rightarrow> pos \<Rightarrow> string \<Rightarrow> real" where
  "heuristic node endp mode = (case node of (x1, y1) \<Rightarrow> case endp of (x2, y2) \<Rightarrow>
     if mode = ''manhattan'' then of_int (\<bar>x1 - x2\<bar> + \<bar>y1 - y2\<bar>)
     else if mode = ''euclidean'' then hypot (of_int (x1 - x2)) (of_int (y1 - y2))
     else if mode = ''zero'' then 0
     else of_int (\<bar>x1 - x2\<bar> + \<bar>y1 - y2\<bar>))"

subsection \<open>The open heap\<close>

text \<open>
  \<open>heapq\<close> keeps a list of \<open>(f, node)\<close> tuples; \<open>heappop\<close> removes and returns the
  smallest tuple in Python's tuple order (first \<open>f\<close>, then \<open>x\<close>, then \<open>y\<close>), which is the
  lexicographic order on pairs. Equal tuples are indistinguishable, so the heap is
  modelled by the list of its entries and \<open>heappop\<close> by the removal of one least entry.
\<close>

type_synonym heap = "(real \<times> pos) list"

definition heappush :: "heap \<Rightarrow> real \<times> pos \<Rightarrow> heap" where
  "heappush h e = h @ [e]"

definition heappop :: "heap \<Rightarrow> (real \<times> pos) \<times> heap" where
  "heappop h = (Min (set h), remove1 (Min (set h)) h)"

subsection \<open>The state of a search\<close>

record search_state =
  open_heap :: heap
  g_cost :: "pos \<rightharpoonup> nat"
  previous :: "pos \<rightharpoonup> pos option"
  visited :: "pos set"

datatype flow = Continue Algorithm search_state | Break Algorithm search_state
  | Raise error Algorithm

definition initial_state :: "pos \<Rightarrow> pos \<Rightarrow> string \<Rightarrow> search_state" where
  "initial_state start endp mode =
     \<lparr>open_heap = heappush [] (heuristic start endp mode, start),
      g_cost = [start \<mapsto> 0],
      previous = [start \<mapsto> None],
      visited = {}\<rparr>"

text \<open>
  The reconstruction loop \<open>while cur is not None: path.append(cur); cur = previous[cur]\<close>
  followed by \<open>path.reverse()\<close>. Nothing in the loop itself bounds it, so it is a
  partial function: \<open>None\<close> is a loop that never ends.
\<close>

partial_function (option) reconstruct ::
  "(pos \<rightharpoonup> pos option) \<Rightarrow> pos option \<Rightarrow> pos list \<Rightarrow> (error + pos list) option" where
  "reconstruct prev cur path =
     (case cur of
        None \<Rightarrow> Some (Inr (rev path))
      | Some c \<Rightarrow>
          (case prev c of
             None \<Rightarrow> Some (Inl KeyError)
           | Some nxt \<Rightarrow> reconstruct prev nxt (path @ [c])))"

declare reconstruct.simps [code]

subsection \<open>A termination order for the search loops\<close>

text \<open>
  Every push on the heap either gives a first cost to a cell inside the bounds or lowers
  the cost of one; every other iteration only pops. So the triple (cells without a cost,
  sum of the costs, length of the heap) decreases lexicographically.
\<close>

definition cells :: "int \<Rightarrow> int \<Rightarrow> pos set" where
  "cells cols rows = {0..<cols} \<times> {0..<rows}"

definition unset_count :: "int \<Rightarrow> int \<Rightarrow> search_state \<Rightarrow> nat" where
  "unset_count cols rows st = card {c \<in> cells cols rows. g_cost st c = None}"

definition g_total :: "int \<Rightarrow> int \<Rightarrow> search_state \<Rightarrow> nat" where
  "g_total cols rows st = (\<Sum>c \<in> cells cols rows. case g_cost st c of None \<Rightarrow> 0 | Some g \<Rightarrow> g)"

definition progress :: "int \<Rightarrow> int \<Rightarrow> search_state \<Rightarrow> search_state \<Rightarrow> bool" where
  "progress cols rows st' st \<longleftrightarrow>
     unset_count cols rows st' < unset_count cols rows st \<or>
     (unset_count cols rows st' = unset_count cols rows st \<and> g_total cols rows st' < g_total cols rows st)"

lemma finite_cells: "finite (cells cols rows)"
  by (simp add: cells_def)

lemma progress_trans:
  "progress cols rows st'' st' \<Longrightarrow> progress cols rows st' st \<Longrightarrow> progress cols rows st'' st"
  by (auto simp: progress_def)

lemma set_new_progress:
  assumes "c \<in> cells cols rows" "g_cost st c = None" "g_cost st' = (g_cost st)(c \<mapsto> v)"
  shows "progress cols rows st' st"
proof -
  have "{a \<in> cells cols rows. g_cost st' a = None} \<subset> {a \<in> cells cols rows. g_cost st a = None}"
    using assms by auto
  then have "unset_count cols rows st' < unset_count cols rows st"
    unfolding unset_count_def by (intro psubset_card_mono) (simp_all add: finite_cells)
  then show ?thesis by (simp add: progress_def)
qed

lemma lower_progress:
  assumes "c \<in> cells cols rows" "g_cost st c = Some g" "v < g" "g_cost st' = (g_cost st)(c \<mapsto> v)"
  shows "progress cols rows st' st"
proof -
  have eq: "{a \<in> cells cols rows. g_cost st' a = None} = {a \<in> cells cols rows. g_cost st a = None}"
    using assms by auto
  have "g_total cols rows st' < g_total cols rows st"
    unfolding g_total_def
  proof (rule sum_strict_mono_ex1)
    show "finite (cells cols rows)" by (rule finite_cells)
    show "\<forall>x\<in>cells cols rows. (case g_cost st' x of None \<Rightarrow> 0 | Some g \<Rightarrow> g) \<le> (case g_cost st x of None \<Rightarrow> 0 | Some g \<Rightarrow> g)"
      using assms by (auto split: option.splits)
    show "\<exists>a\<in>cells cols rows. (case g_cost st' a of None \<Rightarrow> 0 | Some g \<Rightarrow> g) < (case g_cost st a of None \<Rightarrow> 0 | Some g \<Rightarrow> g)"
      using assms by (intro bexI[of _ c]) auto
  qed
  with eq show ?thesis by (simp add: progress_def unset_count_def)
qed

lemma in_bounds_cells: "in_bounds cols rows x y \<Longrightarrow> (x, y) \<in> cells cols rows"
  by (simp add: in_bounds_def cells_def)

definition search_order ::
  "((int \<times> int \<times> search_state) \<times> (int \<times> int \<times> search_state)) set" where
  "search_order = inv_image (less_than <*lex*> less_than <*lex*> less_than)
     (\<lambda>(cols, rows, st). (unset_count cols rows st, g_total cols rows st, length (open_heap st)))"

lemma wf_search_order: "wf search_order"
  unfolding search_order_def by (intro wf_inv_image wf_lex_prod wf_less_than)

lemma heappop_length: "h \<noteq> [] \<Longrightarrow> length (snd (heappop h)) < length h"
  by (simp add: heappop_def length_remove1)

lemma pop_only_order:
  "open_heap st \<noteq> [] \<Longrightarrow> g_cost st' = g_cost st \<Longrightarrow> length (open_heap st') < length (open_heap st) \<Longrightarrow>
   ((cols, rows, st'), (cols, rows, st)) \<in> search_order"
  by (simp add: search_order_def unset_count_def g_total_def)

lemma progress_order:
  "progress cols rows st' st \<Longrightarrow> ((cols, rows, st'), (cols, rows, st)) \<in> search_order"
  by (auto simp: search_order_def progress_def)


subsection \<open>a_star_no_fire\<close>

definition relax_no_fire ::
  "grid \<Rightarrow> int \<Rightarrow> int \<Rightarrow> pos \<Rightarrow> string \<Rightarrow> pos \<Rightarrow> nat \<Rightarrow> int \<times> int \<Rightarrow> search_state
     \<Rightarrow> error + search_state" where
  \<comment> \<open>one round of the loop over the four directions\<close>
  "relax_no_fire grid rows cols endp mode current current_g d st =
     (let nx = fst current + fst d; ny = snd current + snd d in
      if \<not> in_bounds cols rows nx ny then Inr st
      else
        (case cell_at grid nx ny of
           Inl e \<Rightarrow> Inl e
         | Inr cell \<Rightarrow>
             if cell = CHR ''#'' then Inr st
             else
               (let neighbor = (nx, ny); tentative_g = current_g + 1 in
                if (case g_cost st neighbor of None \<Rightarrow> True | Some g \<Rightarrow> tentative_g < g)
                then Inr (st\<lparr>g_cost := (g_cost st)(neighbor \<mapsto> tentative_g),
                            previous := (previous st)(neighbor \<mapsto> Some current),
                            open_heap := heappush (open_heap st)
                              (of_nat tentative_g + heuristic neighbor endp mode, neighbor)\<rparr>)
                else Inr st)))"

fun neighbors_no_fire ::
  "grid \<Rightarrow> int \<Rightarrow> int \<Rightarrow> pos \<Rightarrow> string \<Rightarrow> pos \<Rightarrow> nat \<Rightarrow> (int \<times> int) list \<Rightarrow> search_state
     \<Rightarrow> error + search_state" where
  "neighbors_no_fire grid rows cols endp mode current current_g [] st = Inr st"
| "neighbors_no_fire grid rows cols endp mode current current_g (d # ds) st =
     (case relax_no_fire grid rows cols endp mode current current_g d st of
        Inl e \<Rightarrow> Inl e
      | Inr st' \<Rightarrow> neighbors_no_fire grid rows cols endp mode current current_g ds st')"

definition no_fire_body ::
  "grid \<Rightarrow> int \<Rightarrow> int \<Rightarrow> pos \<Rightarrow> string \<Rightarrow> Algorithm \<Rightarrow> search_state \<Rightarrow> flow" where
  \<comment> \<open>one iteration of \<open>while open_heap\<close>, entered with a non-empty heap\<close>
  "no_fire_body grid rows cols endp mode self st =
     (let current = snd (fst (heappop (open_heap st)));
          st1 = st\<lparr>open_heap := snd (heappop (open_heap st))\<rparr> in
      if current \<in> visited st1 then Continue self st1
      else
        (let st2 = st1\<lparr>visited := insert current (visited st1)\<rparr> in
         if current = endp then Break self st2
         else
           (let self' = self\<lparr>expanded_nodes := expanded_nodes self + 1\<rparr> in
            (case g_cost st2 current of
               None \<Rightarrow> Raise KeyError self'
             | Some current_g \<Rightarrow>
                 (case neighbors_no_fire grid rows cols endp mode current current_g
                         directions st2 of
                    Inl e \<Rightarrow> Raise e self'
                  | Inr st3 \<Rightarrow> Continue self' st3)))))"

lemma relax_no_fire_progress:
  assumes "relax_no_fire grid rows cols endp mode current current_g d st = Inr st'"
  shows "st' = st \<or> progress cols rows st' st"
  using assms
  unfolding relax_no_fire_def Let_def
  by (auto split: if_splits sum.splits option.splits
      intro: set_new_progress[OF in_bounds_cells] lower_progress[OF in_bounds_cells])

lemma neighbors_no_fire_progress:
  "neighbors_no_fire grid rows cols endp mode current current_g ds st = Inr st'
   \<Longrightarrow> st' = st \<or> progress cols rows st' st"
proof (induction ds arbitrary: st)
  case Nil
  then show ?case by simp
next
  case (Cons d ds)
  then obtain st1 where 1: "relax_no_fire grid rows cols endp mode current current_g d st = Inr st1"
    and 2: "neighbors_no_fire grid rows cols endp mode current current_g ds st1 = Inr st'"
    by (auto split: sum.splits)
  from relax_no_fire_progress[OF 1] Cons.IH[OF 2] show ?case
    by (auto intro: progress_trans)
qed

lemma no_fire_body_order:
  assumes "open_heap st \<noteq> []" "no_fire_body grid rows cols endp mode self st = Continue self' st'"
  shows "((cols, rows, st'), (cols, rows, st)) \<in> search_order"
proof -
  let ?st1 = "st\<lparr>open_heap := snd (heappop (open_heap st))\<rparr>"
  have 1: "((cols, rows, ?st1), (cols, rows, st)) \<in> search_order"
    using assms(1) by (intro pop_only_order) (simp_all add: heappop_length)
  have 2: "((cols, rows, s), (cols, rows, st)) \<in> search_order"
    if "g_cost s = g_cost ?st1" "open_heap s = open_heap ?st1" for s
    using assms(1) that by (intro pop_only_order) (simp_all add: heappop_length)
  have 3: "((cols, rows, s'), (cols, rows, st)) \<in> search_order"
    if "g_cost s = g_cost ?st1" "open_heap s = open_heap ?st1" "s' = s \<or> progress cols rows s' s" for s s'
  proof -
    from that(3) show ?thesis
    proof
      assume "s' = s" with 2[OF that(1,2)] show ?thesis by simp
    next
      assume "progress cols rows s' s"
      then have "progress cols rows s' st"
        using that(1) by (simp add: progress_def unset_count_def g_total_def)
      then show ?thesis by (rule progress_order)
    qed
  qed
  let ?cur = "snd (fst (heappop (open_heap st)))"
  let ?st2 = "?st1\<lparr>visited := insert ?cur (visited ?st1)\<rparr>"
  show ?thesis
  proof (cases "?cur \<in> visited st")
    case True
    with assms(2) have "st' = ?st1" by (simp add: no_fire_body_def Let_def)
    with 1 show ?thesis by simp
  next
    case False
    with assms(2) obtain g where g: "g_cost st ?cur = Some g"
      and n: "neighbors_no_fire grid rows cols endp mode ?cur g directions ?st2 = Inr st'"
      by (auto simp: no_fire_body_def Let_def split: if_splits option.splits sum.splits)
    show ?thesis
      by (rule 3[OF _ _ neighbors_no_fire_progress[OF n]]) simp_all
  qed
qed

function no_fire_loop ::
  "grid \<Rightarrow> int \<Rightarrow> int \<Rightarrow> pos \<Rightarrow> string \<Rightarrow> Algorithm \<Rightarrow> search_state
     \<Rightarrow> (error + search_state) \<times> Algorithm" where
  "no_fire_loop grid rows cols endp mode self st =
     (if open_heap st = [] then (Inr st, self)
      else
        (case no_fire_body grid rows cols endp mode self st of
           Continue self' st' \<Rightarrow> no_fire_loop grid rows cols endp mode self' st'
         | Break self' st' \<Rightarrow> (Inr st', self')
         | Raise e self' \<Rightarrow> (Inl e, self')))"
  by pat_completeness auto
termination
proof (relation "inv_image search_order (\<lambda>(grid, rows, cols, endp, mode, self, st). (cols, rows, st))")
  show "wf (inv_image search_order (\<lambda>(grid, rows, cols, endp, mode, self, st). (cols, rows, st)))"
    by (simp add: wf_search_order)
next
  fix grid rows cols endp mode self st x21 x22
  assume "open_heap st \<noteq> []" "no_fire_body grid rows cols endp mode self st = Continue x21 x22"
  then show "((grid, rows, cols, endp, mode, x21, x22), (grid, rows, cols, endp, mode, self, st))
      \<in> inv_image search_order (\<lambda>(grid, rows, cols, endp, mode, self, st). (cols, rows, st))"
    by (simp add: no_fire_body_order)
qed

definition a_star_no_fire ::
  "Algorithm \<Rightarrow> grid \<Rightarrow> pos \<Rightarrow> pos \<Rightarrow> string \<Rightarrow> ((error + pos list) \<times> Algorithm) option" where
  \<comment> \<open>the result and the Algorithm object after the call; \<open>None\<close>: the call never returns\<close>
  "a_star_no_fire self grid start endp mode =
     (let rows = int (length grid) in
      (case py_index grid 0 of
         Inl e \<Rightarrow> Some (Inl e, self)
       | Inr row0 \<Rightarrow>
           (let cols = int (length row0);
                st0 = initial_state start endp mode;
                self0 = self\<lparr>expanded_nodes := 0\<rparr> in
            (case no_fire_loop grid rows cols endp mode self0 st0 of
               (Inl e, self') \<Rightarrow> Some (Inl e, self')
             | (Inr st, self') \<Rightarrow>
                 if previous st endp = None then Some (Inr [], self')
                 else map_option (\<lambda>r. (r, self'))
                        (reconstruct (previous st) (Some endp) [])))))"

subsection \<open>a_star_with_fire\<close>

definition relax_with_fire ::
  "grid \<Rightarrow> int \<Rightarrow> int \<Rightarrow> pos \<Rightarrow> fire_map \<Rightarrow> string \<Rightarrow> pos \<Rightarrow> nat \<Rightarrow> int \<times> int
     \<Rightarrow> search_state \<Rightarrow> error + search_state" where
  "relax_with_fire grid rows cols endp fire_time mode current t d st =
     (let nx = fst current + fst d; ny = snd current + snd d in
      if \<not> in_bounds cols rows nx ny then Inr st
      else
        (case cell_at grid nx ny of
           Inl e \<Rightarrow> Inl e
         | Inr cell \<Rightarrow>
             if cell = CHR ''#'' then Inr st
             else
               (let new_t = t + 1 in
                (case cell_at fire_time nx ny of
                   Inl e \<Rightarrow> Inl e
                 | Inr fire \<Rightarrow>
                     if fire \<le> enat new_t then Inr st
                     else
                       (let neighbor = (nx, ny) in
                        if (case g_cost st neighbor of None \<Rightarrow> True | Some g \<Rightarrow> new_t < g)
                        then Inr (st\<lparr>g_cost := (g_cost st)(neighbor \<mapsto> new_t),
                                    previous := (previous st)(neighbor \<mapsto> Some current),
                                    open_heap := heappush (open_heap st)
                                      (of_nat new_t + heuristic neighbor endp mode, neighbor)\<rparr>)
                        else Inr st)))))"

fun neighbors_with_fire ::
  "grid \<Rightarrow> int \<Rightarrow> int \<Rightarrow> pos \<Rightarrow> fire_map \<Rightarrow> string \<Rightarrow> pos \<Rightarrow> nat \<Rightarrow> (int \<times> int) list
     \<Rightarrow> search_state \<Rightarrow> error + search_state" where
  "neighbors_with_fire grid rows cols endp fire_time mode current t [] st = Inr st"
| "neighbors_with_fire grid rows cols endp fire_time mode current t (d # ds) st =
     (case relax_with_fire grid rows cols endp fire_time mode current t d st of
        Inl e \<Rightarrow> Inl e
      | Inr st' \<Rightarrow> neighbors_with_fire grid rows cols endp fire_time mode current t ds st')"

definition with_fire_body ::
  "grid \<Rightarrow> int \<Rightarrow> int \<Rightarrow> pos \<Rightarrow> fire_map \<Rightarrow> string \<Rightarrow> Algorithm \<Rightarrow> search_state \<Rightarrow> flow" where
  "with_fire_body grid rows cols endp fire_time mode self st =
     (let current = snd (fst (heappop (open_heap st)));
          st1 = st\<lparr>open_heap := snd (heappop (open_heap st))\<rparr> in
      if current \<in> visited st1 then Continue self st1
      else
        (let st2 = st1\<lparr>visited := insert current (visited st1)\<rparr> in
         (case g_cost st2 current of
            None \<Rightarrow> Raise KeyError self
          | Some t \<Rightarrow>
              (case cell_at fire_time (fst current) (snd current) of
                 Inl e \<Rightarrow> Raise e self
               | Inr fire \<Rightarrow>
                   if fire \<le> enat t then Continue self st2
                   else if current = endp then Break self st2
                   else
                     (let self' = self\<lparr>expanded_nodes := expanded_nodes self + 1\<rparr> in
                      (case neighbors_with_fire grid rows cols endp fire_time mode current t
                              directions st2 of
                         Inl e \<Rightarrow> Raise e self'
                       | Inr st3 \<Rightarrow> Continue self' st3))))))"

lemma relax_with_fire_progress:
  assumes "relax_with_fire grid rows cols endp fire_time mode current t d st = Inr st'"
  shows "st' = st \<or> progress cols rows st' st"
  using assms
  unfolding relax_with_fire_def Let_def
  by (auto split: if_splits sum.splits option.splits
      intro: set_new_progress[OF in_bounds_cells] lower_progress[OF in_bounds_cells])

lemma neighbors_with_fire_progress:
  "neighbors_with_fire grid rows cols endp fire_time mode current t ds st = Inr st'
   \<Longrightarrow> st' = st \<or> progress cols rows st' st"
proof (induction ds arbitrary: st)
  case Nil
  then show ?case by simp
next
  case (Cons d ds)
  then obtain st1 where 1: "relax_with_fire grid rows cols endp fire_time mode current t d st = Inr st1"
    and 2: "neighbors_with_fire grid rows cols endp fire_time mode current t ds st1 = Inr st'"
    by (auto split: sum.splits)
  from relax_with_fire_progress[OF 1] Cons.IH[OF 2] show ?case
    by (auto intro: progress_trans)
qed

lemma with_fire_body_order:
  assumes "open_heap st \<noteq> []"
    "with_fire_body grid rows cols endp fire_time mode self st = Continue self' st'"
  shows "((cols, rows, st'), (cols, rows, st)) \<in> search_order"
proof -
  let ?st1 = "st\<lparr>open_heap := snd (heappop (open_heap st))\<rparr>"
  let ?cur = "snd (fst (heappop (open_heap st)))"
  let ?st2 = "?st1\<lparr>visited := insert ?cur (visited ?st1)\<rparr>"
  have 1: "((cols, rows, s), (cols, rows, st)) \<in> search_order"
    if "g_cost s = g_cost ?st1" "open_heap s = open_heap ?st1" for s
    using assms(1) that by (intro pop_only_order) (simp_all add: heappop_length)
  have 2: "((cols, rows, s'), (cols, rows, st)) \<in> search_order"
    if "s' = ?st2 \<or> progress cols rows s' ?st2" for s'
    using that
  proof
    assume "s' = ?st2" then show ?thesis by (intro 1) simp_all
  next
    assume "progress cols rows s' ?st2"
    then have "progress cols rows s' st"
      by (simp add: progress_def unset_count_def g_total_def)
    then show ?thesis by (rule progress_order)
  qed
  show ?thesis
  proof (cases "?cur \<in> visited st")
    case True
    with assms(2) have "st' = ?st1" by (simp add: with_fire_body_def Let_def)
    then show ?thesis by (intro 1) simp_all
  next
    case False
    with assms(2) obtain t where
      "st' = ?st2 \<or> neighbors_with_fire grid rows cols endp fire_time mode ?cur t directions ?st2 = Inr st'"
      by (auto simp: with_fire_body_def Let_def split: if_splits option.splits sum.splits)
    then show ?thesis
      using neighbors_with_fire_progress[where cols=cols and rows=rows] by (intro 2) blast
  qed
qed

function with_fire_loop ::
  "grid \<Rightarrow> int \<Rightarrow> int \<Rightarrow> pos \<Rightarrow> fire_map \<Rightarrow> string \<Rightarrow> Algorithm \<Rightarrow> search_state
     \<Rightarrow> (error + search_state) \<times> Algorithm" where
  "with_fire_loop grid rows cols endp fire_time mode self st =
     (if open_heap st = [] then (Inr st, self)
      else
        (case with_fire_body grid rows cols endp fire_time mode self st of
           Continue self' st' \<Rightarrow> with_fire_loop grid rows cols endp fire_time mode self' st'
         | Break self' st' \<Rightarrow> (Inr st', self')
         | Raise e self' \<Rightarrow> (Inl e, self')))"
  by pat_completeness auto
termination
proof (relation "inv_image search_order
    (\<lambda>(grid, rows, cols, endp, fire_time, mode, self, st). (cols, rows, st))")
  show "wf (inv_image search_order
    (\<lambda>(grid, rows, cols, endp, fire_time, mode, self, st). (cols, rows, st)))"
    by (simp add: wf_search_order)
next
  fix grid rows cols endp fire_time mode self st x21 x22
  assume "open_heap st \<noteq> []"
    "with_fire_body grid rows cols endp fire_time mode self st = Continue x21 x22"
  then show "((grid, rows, cols, endp, fire_time, mode, x21, x22),
       (grid, rows, cols, endp, fire_time, mode, self, st))
      \<in> inv_image search_order
          (\<lambda>(grid, rows, cols, endp, fire_time, mode, self, st). (cols, rows, st))"
    by (simp add: with_fire_body_order)
qed

definition a_star_with_fire ::
  "Algorithm \<Rightarrow> grid \<Rightarrow> pos \<Rightarrow> pos \<Rightarrow> fire_map \<Rightarrow> string
     \<Rightarrow> ((error + pos list) \<times> Algorithm) option" where
  "a_star_with_fire self grid start endp fire_time mode =
     (let rows = int (length grid) in
      (case py_index grid 0 of
         Inl e \<Rightarrow> Some (Inl e, self)
       | Inr row0 \<Rightarrow>
           (let cols = int (length row0) in
            (case cell_at fire_time (fst start) (snd start) of
               Inl e \<Rightarrow> Some (Inl e, self)
             | Inr fire \<Rightarrow>
                 if fire \<le> 0 then Some (Inr [], self)
                 else
                   (let st0 = initial_state start endp mode;
                        self0 = self\<lparr>expanded_nodes := 0\<rparr> in
                    (case with_fire_loop grid rows cols endp fire_time mode self0 st0 of
                       (Inl e, self') \<Rightarrow> Some (Inl e, self')
                     | (Inr st, self') \<Rightarrow>
                         if previous st endp = None then Some (Inr [], self')
                         else map_option (\<lambda>r. (r, self'))
                                (reconstruct (previous st) (Some endp) [])))))))"

section \<open>Invariants of the two searches\<close>

subsection \<open>Running a loop under an invariant\<close>

declare no_fire_loop.simps [simp del] with_fire_loop.simps [simp del]

lemma no_fire_loop_rule_aux:
  assumes "I st"
    and "\<forall>self st self' st'. I st \<longrightarrow> open_heap st \<noteq> [] \<longrightarrow>
           no_fire_body grid rows cols endp mode self st = Continue self' st' \<longrightarrow> I st'"
    and "\<forall>self st self' st'. I st \<longrightarrow> open_heap st \<noteq> [] \<longrightarrow>
           no_fire_body grid rows cols endp mode self st = Break self' st' \<longrightarrow> Q st'"
    and "\<forall>st. I st \<longrightarrow> open_heap st = [] \<longrightarrow> Q st"
    and "no_fire_loop grid rows cols endp mode self st = (Inr st', self')"
  shows "Q st'"
  using assms
proof (induction grid rows cols endp mode self st rule: no_fire_loop.induct)
  case (1 grid rows cols endp mode self st)
  show ?case
  proof (cases "open_heap st = []")
    case True
    with "1.prems"(5) have "st' = st" by (subst (asm) no_fire_loop.simps) simp
    with "1.prems"(1,4) True show ?thesis by simp
  next
    case False
    have unfold: "no_fire_loop grid rows cols endp mode self st =
        (case no_fire_body grid rows cols endp mode self st of
           Continue self' st' \<Rightarrow> no_fire_loop grid rows cols endp mode self' st'
         | Break self' st' \<Rightarrow> (Inr st', self')
         | Raise e self' \<Rightarrow> (Inl e, self'))"
      using False by (subst no_fire_loop.simps) simp
    show ?thesis
    proof (cases "no_fire_body grid rows cols endp mode self st")
      case (Continue s1 st1)
      with unfold "1.prems"(5)
      have run: "no_fire_loop grid rows cols endp mode s1 st1 = (Inr st', self')" by simp
      have "I st1" using "1.prems"(1,2) False Continue by blast
      from "1.IH"[OF False Continue this "1.prems"(2,3,4) run] show ?thesis .
    next
      case (Break s1 st1)
      with unfold "1.prems"(5) have "st1 = st'" by simp
      with "1.prems"(1,3) False Break show ?thesis by blast
    next
      case (Raise e s1)
      with unfold "1.prems"(5) show ?thesis by simp
    qed
  qed
qed

lemma no_fire_loop_rule:
  assumes "I st"
    and "\<And>self st self' st'. I st \<Longrightarrow> open_heap st \<noteq> [] \<Longrightarrow>
           no_fire_body grid rows cols endp mode self st = Continue self' st' \<Longrightarrow> I st'"
    and "\<And>self st self' st'. I st \<Longrightarrow> open_heap st \<noteq> [] \<Longrightarrow>
           no_fire_body grid rows cols endp mode self st = Break self' st' \<Longrightarrow> Q st'"
    and "\<And>st. I st \<Longrightarrow> open_heap st = [] \<Longrightarrow> Q st"
    and "no_fire_loop grid rows cols endp mode self st = (Inr st', self')"
  shows "Q st'"
  by (rule no_fire_loop_rule_aux[where I=I and Q=Q, OF assms(1) _ _ _ assms(5)])
     (use assms(2,3,4) in blast)+

lemma with_fire_loop_rule_aux:
  assumes "I st"
    and "\<forall>self st self' st'. I st \<longrightarrow> open_heap st \<noteq> [] \<longrightarrow>
           with_fire_body grid rows cols endp fire_time mode self st = Continue self' st' \<longrightarrow> I st'"
    and "\<forall>self st self' st'. I st \<longrightarrow> open_heap st \<noteq> [] \<longrightarrow>
           with_fire_body grid rows cols endp fire_time mode self st = Break self' st' \<longrightarrow> Q st'"
    and "\<forall>st. I st \<longrightarrow> open_heap st = [] \<longrightarrow> Q st"
    and "with_fire_loop grid rows cols endp fire_time mode self st = (Inr st', self')"
  shows "Q st'"
  using assms
proof (induction grid rows cols endp fire_time mode self st rule: with_fire_loop.induct)
  case (1 grid rows cols endp fire_time mode self st)
  show ?case
  proof (cases "open_heap st = []")
    case True
    with "1.prems"(5) have "st' = st" by (subst (asm) with_fire_loop.simps) simp
    with "1.prems"(1,4) True show ?thesis by simp
  next
    case False
    have unfold: "with_fire_loop grid rows cols endp fire_time mode self st =
        (case with_fire_body grid rows cols endp fire_time mode self st of
           Continue self' st' \<Rightarrow> with_fire_loop grid rows cols endp fire_time mode self' st'
         | Break self' st' \<Rightarrow> (Inr st', self')
         | Raise e self' \<Rightarrow> (Inl e, self'))"
      using False by (subst with_fire_loop.simps) simp
    show ?thesis
    proof (cases "with_fire_body grid rows cols endp fire_time mode self st")
      case (Continue s1 st1)
      with unfold "1.prems"(5)
      have run: "with_fire_loop grid rows cols endp fire_time mode s1 st1 = (Inr st', self')" by simp
      have "I st1" using "1.prems"(1,2) False Continue by blast
      from "1.IH"[OF False Continue this "1.prems"(2,3,4) run] show ?thesis .
    next
      case (Break s1 st1)
      with unfold "1.prems"(5) have "st1 = st'" by simp
      with "1.prems"(1,3) False Break show ?thesis by blast
    next
      case (Raise e s1)
      with unfold "1.prems"(5) show ?thesis by simp
    qed
  qed
qed

lemma with_fire_loop_rule:
  assumes "I st"
    and "\<And>self st self' st'. I st \<Longrightarrow> open_heap st \<noteq> [] \<Longrightarrow>
           with_fire_body grid rows cols endp fire_time mode self st = Continue self' st' \<Longrightarrow> I st'"
    and "\<And>self st self' st'. I st \<Longrightarrow> open_heap st \<noteq> [] \<Longrightarrow>
           with_fire_body grid rows cols endp fire_time mode self st = Break self' st' \<Longrightarrow> Q st'"
    and "\<And>st. I st \<Longrightarrow> open_heap st = [] \<Longrightarrow> Q st"
    and "with_fire_loop grid rows cols endp fire_time mode self st = (Inr st', self')"
  shows "Q st'"
  by (rule with_fire_loop_rule_aux[where I=I and Q=Q, OF assms(1) _ _ _ assms(5)])
     (use assms(2,3,4) in blast)+

subsection \<open>The back-pointers descend in cost\<close>

definition free_cell :: "grid \<Rightarrow> pos \<Rightarrow> bool" where
  "free_cell grid c =
     (case cell_at grid (fst c) (snd c) of Inl e \<Rightarrow> False | Inr ch \<Rightarrow> ch \<noteq> CHR ''#'')"

definition chain_inv :: "(pos \<Rightarrow> nat \<Rightarrow> bool) \<Rightarrow> search_state \<Rightarrow> bool" where
  "chain_inv ok st \<longleftrightarrow>
     (\<forall>v p. previous st v = Some p \<longrightarrow>
        (\<exists>gv. g_cost st v = Some gv \<and>
           (\<forall>u. p = Some u \<longrightarrow> (\<exists>gu. g_cost st u = Some gu \<and> gu < gv)))) \<and>
     (\<forall>v gv. g_cost st v = Some gv \<longrightarrow> previous st v \<noteq> None \<and> ok v gv)"

lemma chain_inv_same:
  "g_cost st' = g_cost st \<Longrightarrow> previous st' = previous st \<Longrightarrow> chain_inv ok st \<Longrightarrow> chain_inv ok st'"
  by (simp add: chain_inv_def)

lemma chain_inv_initial: "ok start 0 \<Longrightarrow> chain_inv ok (initial_state start endp mode)"
  by (simp add: chain_inv_def initial_state_def)

lemma chain_inv_update_gen:
  assumes inv: "chain_inv ok st"
    and cur: "g_cost st current = Some t'" "t' \<le> t"
    and ok: "ok n (t + 1)"
    and better: "case g_cost st n of None \<Rightarrow> True | Some g \<Rightarrow> t + 1 < g"
    and g': "g_cost st' = (g_cost st)(n \<mapsto> t + 1)"
    and p': "previous st' = (previous st)(n \<mapsto> Some current)"
  shows "chain_inv ok st'" and "g_cost st' current = Some t'"
proof -
  from cur better have ne: "n \<noteq> current" by auto
  with cur g' show c': "g_cost st' current = Some t'" by simp
  have lower: "t + 1 \<le> g" if "g_cost st n = Some g" for g
    using better that by simp
  have old: "\<exists>gv. g_cost st v = Some gv \<and> (\<forall>u. p = Some u \<longrightarrow> (\<exists>gu. g_cost st u = Some gu \<and> gu < gv))"
    if "previous st v = Some p" for v p
    using inv that unfolding chain_inv_def by blast
  have A: "\<exists>gv. g_cost st' v = Some gv \<and> (\<forall>u. p = Some u \<longrightarrow> (\<exists>gu. g_cost st' u = Some gu \<and> gu < gv))"
    if p: "previous st' v = Some p" for v p
  proof (cases "v = n")
    case True
    with p p' have "p = Some current" by simp
    with True g' c' cur(2) show ?thesis by simp
  next
    case False
    with p p' have "previous st v = Some p" by simp
    from old[OF this] obtain gv where gv: "g_cost st v = Some gv"
      and pu: "\<forall>u. p = Some u \<longrightarrow> (\<exists>gu. g_cost st u = Some gu \<and> gu < gv)"
      by blast
    have "\<exists>gu. g_cost st' u = Some gu \<and> gu < gv" if "p = Some u" for u
    proof -
      from pu that obtain gu where gu: "g_cost st u = Some gu" "gu < gv" by blast
      show ?thesis
      proof (cases "u = n")
        case True
        with gu lower[of gu] g' show ?thesis by auto
      next
        case False
        with gu g' show ?thesis by auto
      qed
    qed
    with gv False g' show ?thesis by auto
  qed
  have B: "previous st' v \<noteq> None \<and> ok v gv" if "g_cost st' v = Some gv" for v gv
  proof (cases "v = n")
    case True
    with that g' p' ok show ?thesis by simp
  next
    case False
    with that g' have "g_cost st v = Some gv" by simp
    with inv have "previous st v \<noteq> None \<and> ok v gv" unfolding chain_inv_def by blast
    with False p' show ?thesis by simp
  qed
  show "chain_inv ok st'"
    unfolding chain_inv_def using A B by blast
qed

lemma chain_inv_prev: "chain_inv ok st \<Longrightarrow> g_cost st v = Some gv \<Longrightarrow> \<exists>p. previous st v = Some p"
  unfolding chain_inv_def by blast

lemma chain_inv_ok: "chain_inv ok st \<Longrightarrow> g_cost st v = Some gv \<Longrightarrow> ok v gv"
  unfolding chain_inv_def by blast

lemma chain_inv_dom: "chain_inv ok st \<Longrightarrow> previous st v = Some p \<Longrightarrow> \<exists>gv. g_cost st v = Some gv"
  unfolding chain_inv_def by blast

lemma chain_inv_descend:
  assumes "chain_inv ok st" "previous st v = Some (Some u)" "g_cost st v = Some gv"
  shows "\<exists>gu. g_cost st u = Some gu \<and> gu < gv"
proof -
  from assms(1,2) obtain gv' where "g_cost st v = Some gv'"
    and "\<forall>w. Some u = Some w \<longrightarrow> (\<exists>gu. g_cost st w = Some gu \<and> gu < gv')"
    unfolding chain_inv_def by blast
  with assms(3) show ?thesis by simp
qed

lemma reconstruct_None: "reconstruct prev None acc = Some (Inr (rev acc))"
  by (subst reconstruct.simps) simp

lemma reconstruct_Some:
  "reconstruct prev (Some c) acc =
     (case prev c of None \<Rightarrow> Some (Inl KeyError) | Some nxt \<Rightarrow> reconstruct prev nxt (acc @ [c]))"
  by (subst reconstruct.simps) simp

lemma reconstruct_chain:
  assumes "chain_inv ok st" "g_cost st c = Some gc"
  shows "\<exists>ps. reconstruct (previous st) (Some c) acc = Some (Inr (ps @ c # rev acc))
           \<and> length ps \<le> gc
           \<and> (\<forall>i<length ps. \<exists>gv. g_cost st (ps ! i) = Some gv \<and> i \<le> gv)"
  using assms(2)
proof (induction gc arbitrary: c acc rule: less_induct)
  case (less gc)
  from chain_inv_prev[OF assms(1) less.prems] obtain p where p: "previous st c = Some p" ..
  show ?case
  proof (cases p)
    case None
    with p have "reconstruct (previous st) (Some c) acc = Some (Inr ([] @ c # rev acc))"
      by (simp add: reconstruct_Some reconstruct_None)
    then show ?thesis by (intro exI[of _ "[]"]) simp
  next
    case (Some u)
    with chain_inv_descend[OF assms(1) _ less.prems, of u] p
    obtain gu where gu: "g_cost st u = Some gu" "gu < gc" by auto
    from less.IH[OF gu(2) gu(1), of "acc @ [c]"] obtain ps where
      ps: "reconstruct (previous st) (Some u) (acc @ [c]) = Some (Inr (ps @ u # rev (acc @ [c])))"
        "length ps \<le> gu" "\<forall>i<length ps. \<exists>gv. g_cost st (ps ! i) = Some gv \<and> i \<le> gv"
      by blast
    have "reconstruct (previous st) (Some c) acc = Some (Inr ((ps @ [u]) @ c # rev acc))"
      using p Some ps(1) by (simp add: reconstruct_Some)
    moreover have "length (ps @ [u]) \<le> gc" using ps(2) gu(2) by simp
    moreover have "\<forall>i<length (ps @ [u]). \<exists>gv. g_cost st ((ps @ [u]) ! i) = Some gv \<and> i \<le> gv"
      using ps(2,3) gu(1) by (auto simp: nth_append less_Suc_eq)
    ultimately show ?thesis by (intro exI[of _ "ps @ [u]"] conjI)
  qed
qed

lemma reconstruct_path:
  assumes "chain_inv ok st" "previous st endp \<noteq> None"
  shows "\<exists>path. reconstruct (previous st) (Some endp) [] = Some (Inr path)
           \<and> (\<forall>i<length path. \<exists>gv. g_cost st (path ! i) = Some gv \<and> i \<le> gv \<and> ok (path ! i) gv)"
proof -
  from assms(2) obtain p where "previous st endp = Some p" by auto
  from chain_inv_dom[OF assms(1) this] obtain ge where ge: "g_cost st endp = Some ge" ..
  from reconstruct_chain[OF assms(1) ge, of "[]"] obtain ps where
    ps: "reconstruct (previous st) (Some endp) [] = Some (Inr (ps @ [endp]))"
      "length ps \<le> ge" "\<forall>i<length ps. \<exists>gv. g_cost st (ps ! i) = Some gv \<and> i \<le> gv"
    by auto
  have H: "\<forall>i<length (ps @ [endp]). \<exists>gv. g_cost st ((ps @ [endp]) ! i) = Some gv \<and> i \<le> gv"
    using ps(2,3) ge by (auto simp: nth_append less_Suc_eq)
  have okv: "ok v gv" if "g_cost st v = Some gv" for v gv
    using assms(1) that by (rule chain_inv_ok)
  have "\<forall>i<length (ps @ [endp]).
      \<exists>gv. g_cost st ((ps @ [endp]) ! i) = Some gv \<and> i \<le> gv \<and> ok ((ps @ [endp]) ! i) gv"
  proof (intro allI impI)
    fix i assume "i < length (ps @ [endp])"
    with H obtain gv where "g_cost st ((ps @ [endp]) ! i) = Some gv" "i \<le> gv" by blast
    with okv[OF this(1)] show "\<exists>gv. g_cost st ((ps @ [endp]) ! i) = Some gv \<and> i \<le> gv \<and> ok ((ps @ [endp]) ! i) gv"
      by blast
  qed
  with ps(1) show ?thesis by (intro exI[of _ "ps @ [endp]"] conjI)
qed

subsection \<open>What every cell with a cost satisfies\<close>

definition plain_ok :: "grid \<Rightarrow> int \<Rightarrow> int \<Rightarrow> pos \<Rightarrow> pos \<Rightarrow> nat \<Rightarrow> bool" where
  "plain_ok grid cols rows start v g \<longleftrightarrow>
     v = start \<or> (in_bounds cols rows (fst v) (snd v) \<and> free_cell grid v)"

definition fire_later :: "fire_map \<Rightarrow> pos \<Rightarrow> nat \<Rightarrow> bool" where
  \<comment> \<open>\<open>fire_time[y][x] > t\<close> for the cell \<open>(x, y)\<close>\<close>
  "fire_later fire_time v t =
     (case cell_at fire_time (fst v) (snd v) of Inl e \<Rightarrow> False | Inr f \<Rightarrow> enat t < f)"

definition fire_ok :: "grid \<Rightarrow> int \<Rightarrow> int \<Rightarrow> pos \<Rightarrow> fire_map \<Rightarrow> pos \<Rightarrow> nat \<Rightarrow> bool" where
  "fire_ok grid cols rows start fire_time v g \<longleftrightarrow>
     plain_ok grid cols rows start v g \<and> fire_later fire_time v g"

lemma relax_no_fire_cases:
  assumes "relax_no_fire grid rows cols endp mode current t d st = Inr st'"
  shows "st' = st \<or>
     (in_bounds cols rows (fst current + fst d) (snd current + snd d)
      \<and> free_cell grid (fst current + fst d, snd current + snd d)
      \<and> (case g_cost st (fst current + fst d, snd current + snd d) of
            None \<Rightarrow> True | Some g \<Rightarrow> t + 1 < g)
      \<and> st' = st\<lparr>g_cost := (g_cost st)((fst current + fst d, snd current + snd d) \<mapsto> t + 1),
                   previous := (previous st)((fst current + fst d, snd current + snd d) \<mapsto> Some current),
                   open_heap := heappush (open_heap st)
                     (of_nat (t + 1) + heuristic (fst current + fst d, snd current + snd d) endp mode,
                      (fst current + fst d, snd current + snd d))\<rparr>)"
  using assms unfolding relax_no_fire_def Let_def free_cell_def
  by (auto split: if_splits sum.splits)

lemma relax_no_fire_chain:
  assumes inv: "chain_inv (plain_ok grid cols rows start) st"
    and cur: "g_cost st current = Some t'" "t' \<le> t"
    and step: "relax_no_fire grid rows cols endp mode current t d st = Inr st'"
  shows "chain_inv (plain_ok grid cols rows start) st' \<and> g_cost st' current = Some t'"
proof (cases "st' = st")
  case True
  with inv cur show ?thesis by simp
next
  case False
  let ?n = "(fst current + fst d, snd current + snd d)"
  from False relax_no_fire_cases[OF step]
  have b: "in_bounds cols rows (fst ?n) (snd ?n)" and c: "free_cell grid ?n"
    and better: "case g_cost st ?n of None \<Rightarrow> True | Some g \<Rightarrow> t + 1 < g"
    and st': "st' = st\<lparr>g_cost := (g_cost st)(?n \<mapsto> t + 1),
                       previous := (previous st)(?n \<mapsto> Some current),
                       open_heap := heappush (open_heap st)
                         (of_nat (t + 1) + heuristic ?n endp mode, ?n)\<rparr>"
    by simp_all
  from b c have ok: "plain_ok grid cols rows start ?n (t + 1)"
    by (simp add: plain_ok_def)
  have "g_cost st' = (g_cost st)(?n \<mapsto> t + 1)" "previous st' = (previous st)(?n \<mapsto> Some current)"
    by (simp_all add: st')
  from chain_inv_update_gen[OF inv cur ok better this] show ?thesis by simp
qed

lemma neighbors_no_fire_chain:
  assumes "chain_inv (plain_ok grid cols rows start) st"
    and "g_cost st current = Some t'" "t' \<le> t"
    and "neighbors_no_fire grid rows cols endp mode current t ds st = Inr st'"
  shows "chain_inv (plain_ok grid cols rows start) st'"
  using assms
proof (induction ds arbitrary: st)
  case Nil
  then show ?case by simp
next
  case (Cons d ds)
  from Cons.prems(4) obtain st1 where
    1: "relax_no_fire grid rows cols endp mode current t d st = Inr st1"
    and 2: "neighbors_no_fire grid rows cols endp mode current t ds st1 = Inr st'"
    by (auto split: sum.splits)
  from relax_no_fire_chain[OF Cons.prems(1,2,3) 1]
  have "chain_inv (plain_ok grid cols rows start) st1" "g_cost st1 current = Some t'" by auto
  from Cons.IH[OF this Cons.prems(3) 2] show ?case .
qed

lemma no_fire_body_chain:
  assumes inv: "chain_inv (plain_ok grid cols rows start) st"
    and step: "no_fire_body grid rows cols endp mode self st = Continue self' st'
             \<or> no_fire_body grid rows cols endp mode self st = Break self' st'"
  shows "chain_inv (plain_ok grid cols rows start) st'"
proof -
  let ?cur = "snd (fst (heappop (open_heap st)))"
  let ?st1 = "st\<lparr>open_heap := snd (heappop (open_heap st))\<rparr>"
  let ?st2 = "?st1\<lparr>visited := insert ?cur (visited ?st1)\<rparr>"
  have 1: "chain_inv (plain_ok grid cols rows start) ?st1"
    by (rule chain_inv_same[OF _ _ inv]) simp_all
  have 2: "chain_inv (plain_ok grid cols rows start) ?st2"
    by (rule chain_inv_same[OF _ _ inv]) simp_all
  from step consider "st' = ?st1" | "st' = ?st2"
    | g where "g_cost ?st2 ?cur = Some g"
        "neighbors_no_fire grid rows cols endp mode ?cur g directions ?st2 = Inr st'"
    by (auto simp: no_fire_body_def Let_def split: if_splits option.splits sum.splits)
  then show ?thesis
  proof cases
    case 1
    with \<open>chain_inv (plain_ok grid cols rows start) ?st1\<close> show ?thesis by simp
  next
    case 2
    with \<open>chain_inv (plain_ok grid cols rows start) ?st2\<close> show ?thesis by simp
  next
    case (3 g)
    from neighbors_no_fire_chain[OF 2 3(1) le_refl 3(2)] show ?thesis .
  qed
qed

lemma relax_with_fire_cases:
  assumes "relax_with_fire grid rows cols endp fire_time mode current t d st = Inr st'"
  shows "st' = st \<or>
     (in_bounds cols rows (fst current + fst d) (snd current + snd d)
      \<and> free_cell grid (fst current + fst d, snd current + snd d)
      \<and> fire_later fire_time (fst current + fst d, snd current + snd d) (t + 1)
      \<and> (case g_cost st (fst current + fst d, snd current + snd d) of
            None \<Rightarrow> True | Some g \<Rightarrow> t + 1 < g)
      \<and> st' = st\<lparr>g_cost := (g_cost st)((fst current + fst d, snd current + snd d) \<mapsto> t + 1),
                   previous := (previous st)((fst current + fst d, snd current + snd d) \<mapsto> Some current),
                   open_heap := heappush (open_heap st)
                     (of_nat (t + 1) + heuristic (fst current + fst d, snd current + snd d) endp mode,
                      (fst current + fst d, snd current + snd d))\<rparr>)"
  using assms unfolding relax_with_fire_def Let_def free_cell_def fire_later_def
  by (auto split: if_splits sum.splits)

lemma relax_with_fire_chain:
  assumes inv: "chain_inv (fire_ok grid cols rows start fire_time) st"
    and cur: "g_cost st current = Some t'" "t' \<le> t"
    and step: "relax_with_fire grid rows cols endp fire_time mode current t d st = Inr st'"
  shows "chain_inv (fire_ok grid cols rows start fire_time) st' \<and> g_cost st' current = Some t'"
proof (cases "st' = st")
  case True
  with inv cur show ?thesis by simp
next
  case False
  let ?n = "(fst current + fst d, snd current + snd d)"
  from False relax_with_fire_cases[OF step]
  have b: "in_bounds cols rows (fst ?n) (snd ?n)" and c: "free_cell grid ?n"
    and f: "fire_later fire_time ?n (t + 1)"
    and better: "case g_cost st ?n of None \<Rightarrow> True | Some g \<Rightarrow> t + 1 < g"
    and st': "st' = st\<lparr>g_cost := (g_cost st)(?n \<mapsto> t + 1),
                       previous := (previous st)(?n \<mapsto> Some current),
                       open_heap := heappush (open_heap st)
                         (of_nat (t + 1) + heuristic ?n endp mode, ?n)\<rparr>"
    by simp_all
  from b c f have ok: "fire_ok grid cols rows start fire_time ?n (t + 1)"
    by (simp add: fire_ok_def plain_ok_def)
  have "g_cost st' = (g_cost st)(?n \<mapsto> t + 1)" "previous st' = (previous st)(?n \<mapsto> Some current)"
    by (simp_all add: st')
  from chain_inv_update_gen[OF inv cur ok better this] show ?thesis by simp
qed

lemma neighbors_with_fire_chain:
  assumes "chain_inv (fire_ok grid cols rows start fire_time) st"
    and "g_cost st current = Some t'" "t' \<le> t"
    and "neighbors_with_fire grid rows cols endp fire_time mode current t ds st = Inr st'"
  shows "chain_inv (fire_ok grid cols rows start fire_time) st'"
  using assms
proof (induction ds arbitrary: st)
  case Nil
  then show ?case by simp
next
  case (Cons d ds)
  from Cons.prems(4) obtain st1 where
    1: "relax_with_fire grid rows cols endp fire_time mode current t d st = Inr st1"
    and 2: "neighbors_with_fire grid rows cols endp fire_time mode current t ds st1 = Inr st'"
    by (auto split: sum.splits)
  from relax_with_fire_chain[OF Cons.prems(1,2,3) 1]
  have "chain_inv (fire_ok grid cols rows start fire_time) st1" "g_cost st1 current = Some t'"
    by auto
  from Cons.IH[OF this Cons.prems(3) 2] show ?case .
qed

lemma with_fire_body_chain:
  assumes inv: "chain_inv (fire_ok grid cols rows start fire_time) st"
    and step: "with_fire_body grid rows cols endp fire_time mode self st = Continue self' st'
             \<or> with_fire_body grid rows cols endp fire_time mode self st = Break self' st'"
  shows "chain_inv (fire_ok grid cols rows start fire_time) st'"
proof -
  let ?cur = "snd (fst (heappop (open_heap st)))"
  let ?st1 = "st\<lparr>open_heap := snd (heappop (open_heap st))\<rparr>"
  let ?st2 = "?st1\<lparr>visited := insert ?cur (visited ?st1)\<rparr>"
  have 1: "chain_inv (fire_ok grid cols rows start fire_time) ?st1"
    by (rule chain_inv_same[OF _ _ inv]) simp_all
  have 2: "chain_inv (fire_ok grid cols rows start fire_time) ?st2"
    by (rule chain_inv_same[OF _ _ inv]) simp_all
  from step consider "st' = ?st1" | "st' = ?st2"
    | g where "g_cost ?st2 ?cur = Some g"
        "neighbors_with_fire grid rows cols endp fire_time mode ?cur g directions ?st2 = Inr st'"
    by (auto simp: with_fire_body_def Let_def split: if_splits option.splits sum.splits)
  then show ?thesis
  proof cases
    case 1
    with \<open>chain_inv (fire_ok grid cols rows start fire_time) ?st1\<close> show ?thesis by simp
  next
    case 2
    with \<open>chain_inv (fire_ok grid cols rows start fire_time) ?st2\<close> show ?thesis by simp
  next
    case (3 g)
    from neighbors_with_fire_chain[OF 2 3(1) le_refl 3(2)] show ?thesis .
  qed
qed

lemma no_fire_loop_chain:
  assumes "no_fire_loop grid rows cols endp mode self (initial_state start endp mode) = (Inr st, self')"
  shows "chain_inv (plain_ok grid cols rows start) st"
proof (rule no_fire_loop_rule[where I = "chain_inv (plain_ok grid cols rows start)", OF _ _ _ _ assms])
  show "chain_inv (plain_ok grid cols rows start) (initial_state start endp mode)"
    by (rule chain_inv_initial) (simp add: plain_ok_def)
qed (auto intro: no_fire_body_chain)

lemma with_fire_loop_chain:
  assumes "fire_later fire_time start 0"
    and "with_fire_loop grid rows cols endp fire_time mode self (initial_state start endp mode)
           = (Inr st, self')"
  shows "chain_inv (fire_ok grid cols rows start fire_time) st"
proof (rule with_fire_loop_rule[where I = "chain_inv (fire_ok grid cols rows start fire_time)",
      OF _ _ _ _ assms(2)])
  show "chain_inv (fire_ok grid cols rows start fire_time) (initial_state start endp mode)"
    using assms(1) by (intro chain_inv_initial) (simp add: fire_ok_def plain_ok_def)
qed (auto intro: with_fire_body_chain)

subsection \<open>The outcomes of a search\<close>

lemma py_index_0: "py_index xs 0 = Inr r \<Longrightarrow> xs \<noteq> [] \<and> r = xs ! 0"
  by (auto simp: py_index_def split: if_splits)

lemma a_star_no_fire_result:
  obtains (raised) e s where "a_star_no_fire self grid start endp mode = Some (Inl e, s)"
  | (none) s where "a_star_no_fire self grid start endp mode = Some (Inr [], s)"
  | (found) st s path where
      "a_star_no_fire self grid start endp mode = Some (Inr path, s)"
      "no_fire_loop grid (int (length grid)) (int (length (grid ! 0))) endp mode
         (self\<lparr>expanded_nodes := 0\<rparr>) (initial_state start endp mode) = (Inr st, s)"
      "previous st endp \<noteq> None"
      "reconstruct (previous st) (Some endp) [] = Some (Inr path)"
      "\<forall>i<length path. \<exists>gv. g_cost st (path ! i) = Some gv \<and> i \<le> gv
          \<and> plain_ok grid (int (length (grid ! 0))) (int (length grid)) start (path ! i) gv"
proof (cases "py_index grid 0")
  case (Inl e)
  then have "a_star_no_fire self grid start endp mode = Some (Inl e, self)"
    by (simp add: a_star_no_fire_def)
  then show ?thesis by (rule raised)
next
  case (Inr row0)
  then have row0: "row0 = grid ! 0" by (simp add: py_index_0)
  obtain r s where loop: "no_fire_loop grid (int (length grid)) (int (length (grid ! 0))) endp mode
         (self\<lparr>expanded_nodes := 0\<rparr>) (initial_state start endp mode) = (r, s)"
    by (cases "no_fire_loop grid (int (length grid)) (int (length (grid ! 0))) endp mode
         (self\<lparr>expanded_nodes := 0\<rparr>) (initial_state start endp mode)")
  show ?thesis
  proof (cases r)
    case (Inl e)
    with Inr row0 loop have "a_star_no_fire self grid start endp mode = Some (Inl e, s)"
      by (simp add: a_star_no_fire_def Let_def)
    then show ?thesis by (rule raised)
  next
    case st: (Inr st)
    show ?thesis
    proof (cases "previous st endp = None")
      case True
      with Inr row0 loop st have "a_star_no_fire self grid start endp mode = Some (Inr [], s)"
        by (simp add: a_star_no_fire_def Let_def)
      then show ?thesis by (rule none)
    next
      case False
      from loop st have inv: "chain_inv (plain_ok grid (int (length (grid ! 0))) (int (length grid)) start) st"
        by (intro no_fire_loop_chain) simp
      from reconstruct_path[OF inv False] obtain path where
        path: "reconstruct (previous st) (Some endp) [] = Some (Inr path)"
        "\<forall>i<length path. \<exists>gv. g_cost st (path ! i) = Some gv \<and> i \<le> gv
          \<and> plain_ok grid (int (length (grid ! 0))) (int (length grid)) start (path ! i) gv"
        by blast
      from Inr row0 loop st False path(1)
      have "a_star_no_fire self grid start endp mode = Some (Inr path, s)"
        by (auto simp: a_star_no_fire_def Let_def)
      moreover from loop st have "no_fire_loop grid (int (length grid)) (int (length (grid ! 0)))
          endp mode (self\<lparr>expanded_nodes := 0\<rparr>) (initial_state start endp mode) = (Inr st, s)"
        by simp
      ultimately show ?thesis using False path by (rule found)
    qed
  qed
qed

lemma a_star_with_fire_result:
  obtains (raised) e s where "a_star_with_fire self grid start endp fire_time mode = Some (Inl e, s)"
  | (none) s where "a_star_with_fire self grid start endp fire_time mode = Some (Inr [], s)"
  | (found) st s path where
      "a_star_with_fire self grid start endp fire_time mode = Some (Inr path, s)"
      "with_fire_loop grid (int (length grid)) (int (length (grid ! 0))) endp fire_time mode
         (self\<lparr>expanded_nodes := 0\<rparr>) (initial_state start endp mode) = (Inr st, s)"
      "previous st endp \<noteq> None"
      "reconstruct (previous st) (Some endp) [] = Some (Inr path)"
      "\<forall>i<length path. \<exists>gv. g_cost st (path ! i) = Some gv \<and> i \<le> gv
          \<and> fire_ok grid (int (length (grid ! 0))) (int (length grid)) start fire_time (path ! i) gv"
proof (cases "py_index grid 0")
  case (Inl e)
  then have "a_star_with_fire self grid start endp fire_time mode = Some (Inl e, self)"
    by (simp add: a_star_with_fire_def)
  then show ?thesis by (rule raised)
next
  case (Inr row0)
  then have row0: "row0 = grid ! 0" by (simp add: py_index_0)
  show ?thesis
  proof (cases "cell_at fire_time (fst start) (snd start)")
    case (Inl e)
    with Inr have "a_star_with_fire self grid start endp fire_time mode = Some (Inl e, self)"
      by (simp add: a_star_with_fire_def Let_def)
    then show ?thesis by (rule raised)
  next
    case fire: (Inr fire)
    show ?thesis
    proof (cases "fire \<le> 0")
      case True
      with Inr fire have "a_star_with_fire self grid start endp fire_time mode = Some (Inr [], self)"
        by (simp add: a_star_with_fire_def Let_def)
      then show ?thesis by (rule none)
    next
      case pos: False
      then have later: "fire_later fire_time start 0"
        using fire by (simp add: fire_later_def zero_enat_def[symmetric])
      obtain r s where loop: "with_fire_loop grid (int (length grid)) (int (length (grid ! 0))) endp
           fire_time mode (self\<lparr>expanded_nodes := 0\<rparr>) (initial_state start endp mode) = (r, s)"
        by (cases "with_fire_loop grid (int (length grid)) (int (length (grid ! 0))) endp
           fire_time mode (self\<lparr>expanded_nodes := 0\<rparr>) (initial_state start endp mode)")
      show ?thesis
      proof (cases r)
        case (Inl e)
        with Inr row0 fire pos loop
        have "a_star_with_fire self grid start endp fire_time mode = Some (Inl e, s)"
          by (simp add: a_star_with_fire_def Let_def)
        then show ?thesis by (rule raised)
      next
        case st: (Inr st)
        show ?thesis
        proof (cases "previous st endp = None")
          case True
          with Inr row0 fire pos loop st
          have "a_star_with_fire self grid start endp fire_time mode = Some (Inr [], s)"
            by (simp add: a_star_with_fire_def Let_def)
          then show ?thesis by (rule none)
        next
          case False
          from loop st have inv: "chain_inv
              (fire_ok grid (int (length (grid ! 0))) (int (length grid)) start fire_time) st"
            by (intro with_fire_loop_chain[OF later]) simp
          from reconstruct_path[OF inv False] obtain path where
            path: "reconstruct (previous st) (Some endp) [] = Some (Inr path)"
            "\<forall>i<length path. \<exists>gv. g_cost st (path ! i) = Some gv \<and> i \<le> gv
              \<and> fire_ok grid (int (length (grid ! 0))) (int (length grid)) start fire_time (path ! i) gv"
            by blast
          from Inr row0 fire pos loop st False path(1)
          have "a_star_with_fire self grid start endp fire_time mode = Some (Inr path, s)"
            by (auto simp: a_star_with_fire_def Let_def)
          moreover from loop st have "with_fire_loop grid (int (length grid))
              (int (length (grid ! 0))) endp fire_time mode (self\<lparr>expanded_nodes := 0\<rparr>)
              (initial_state start endp mode) = (Inr st, s)"
            by simp
          ultimately show ?thesis using False path by (rule found)
        qed
      qed
    qed
  qed
qed

lemma fire_later_mono: "fire_later fire_time v t \<Longrightarrow> i \<le> t \<Longrightarrow> fire_later fire_time v i"
proof -
  assume a: "fire_later fire_time v t" "i \<le> t"
  then obtain f where f: "cell_at fire_time (fst v) (snd v) = Inr f" "enat t < f"
    by (auto simp: fire_later_def split: sum.splits)
  from a(2) have "enat i \<le> enat t" by simp
  with f(2) have "enat i < f" by (cases f) auto
  with f(1) show ?thesis by (simp add: fire_later_def)
qed

section \<open>Walks on the grid\<close>

definition passable :: "grid \<Rightarrow> pos \<Rightarrow> bool" where
  \<comment> \<open>a cell of the grid that is not a wall\<close>
  "passable grid c \<longleftrightarrow> 0 \<le> fst c \<and> 0 \<le> snd c \<and> free_cell grid c"

definition adjacent :: "pos \<Rightarrow> pos \<Rightarrow> bool" where
  "adjacent a b \<longleftrightarrow> (fst b - fst a, snd b - snd a) \<in> set directions"

fun is_walk :: "grid \<Rightarrow> pos list \<Rightarrow> bool" where
  \<comment> \<open>each step goes to a 4-adjacent cell that is not a wall\<close>
  "is_walk grid [] = False"
| "is_walk grid [a] = True"
| "is_walk grid (a # b # p) = (adjacent a b \<and> passable grid b \<and> is_walk grid (b # p))"

definition fire_source :: "grid \<Rightarrow> pos \<Rightarrow> bool" where
  "fire_source grid c \<longleftrightarrow>
     0 \<le> fst c \<and> 0 \<le> snd c \<and> cell_at grid (fst c) (snd c) = Inr CHR ''F''"

definition fire_walk :: "grid \<Rightarrow> pos list \<Rightarrow> bool" where
  "fire_walk grid p \<longleftrightarrow> p \<noteq> [] \<and> fire_source grid (hd p) \<and> is_walk grid p"

definition fire_reaches :: "grid \<Rightarrow> nat \<Rightarrow> pos \<Rightarrow> bool" where
  \<comment> \<open>some walk of \<open>n\<close> steps leads from a fire source to the cell\<close>
  "fire_reaches grid n c \<longleftrightarrow> (\<exists>p. fire_walk grid p \<and> last p = c \<and> length p = Suc n)"

definition fire_distance :: "grid \<Rightarrow> pos \<Rightarrow> enat \<Rightarrow> bool" where
  \<comment> \<open>the length of a shortest walk from a fire source, \<open>\<infinity>\<close> when there is none\<close>
  "fire_distance grid c d \<longleftrightarrow>
     (case d of
        enat n \<Rightarrow> fire_reaches grid n c \<and> (\<forall>m. fire_reaches grid m c \<longrightarrow> n \<le> m)
      | \<infinity> \<Rightarrow> (\<forall>m. \<not> fire_reaches grid m c))"

definition rectangular :: "'a list list \<Rightarrow> int \<Rightarrow> int \<Rightarrow> bool" where
  "rectangular m cols rows \<longleftrightarrow> int (length m) = rows \<and> (\<forall>row\<in>set m. int (length row) = cols)"

definition entry :: "'a list list \<Rightarrow> pos \<Rightarrow> 'a" where
  "entry m c = m ! nat (snd c) ! nat (fst c)"

lemma is_walk_snoc:
  "p \<noteq> [] \<Longrightarrow> is_walk grid (p @ [c]) \<longleftrightarrow> is_walk grid p \<and> adjacent (last p) c \<and> passable grid c"
  by (induction grid p rule: is_walk.induct) auto

lemma is_walk_nonempty: "is_walk grid p \<Longrightarrow> p \<noteq> []"
  by (cases p) auto

lemma fire_reaches_0: "fire_reaches grid 0 c \<longleftrightarrow> fire_source grid c"
proof
  assume "fire_reaches grid 0 c"
  then obtain p where "fire_walk grid p" "last p = c" "length p = Suc 0"
    by (auto simp: fire_reaches_def)
  then show "fire_source grid c"
    by (cases p) (auto simp: fire_walk_def)
next
  assume "fire_source grid c"
  then have "fire_walk grid [c]" by (simp add: fire_walk_def)
  then show "fire_reaches grid 0 c"
    unfolding fire_reaches_def by (intro exI[of _ "[c]"]) simp
qed

lemma fire_reaches_step:
  assumes "fire_reaches grid n c" "adjacent c c'" "passable grid c'"
  shows "fire_reaches grid (Suc n) c'"
proof -
  from assms(1) obtain p where p: "fire_walk grid p" "last p = c" "length p = Suc n"
    by (auto simp: fire_reaches_def)
  then have "p \<noteq> []" by auto
  with p assms(2,3) have "fire_walk grid (p @ [c'])"
    by (simp add: fire_walk_def is_walk_snoc)
  with p(3) show ?thesis
    unfolding fire_reaches_def by (intro exI[of _ "p @ [c']"]) simp
qed

lemma fire_reaches_Suc:
  assumes "fire_reaches grid (Suc n) c'"
  shows "\<exists>c. fire_reaches grid n c \<and> adjacent c c' \<and> passable grid c'"
proof -
  from assms obtain p where p: "fire_walk grid p" "last p = c'" "length p = Suc (Suc n)"
    by (auto simp: fire_reaches_def)
  then have "p \<noteq> []" by auto
  then obtain q where q: "p = q @ [c']" using p(2) by (metis append_butlast_last_id)
  with p(3) have qn: "length q = Suc n" by simp
  then have "q \<noteq> []" by auto
  with p(1) q have "is_walk grid q" "adjacent (last q) c'" "passable grid c'" "fire_source grid (hd q)"
    by (simp_all add: fire_walk_def is_walk_snoc)
  with qn \<open>q \<noteq> []\<close> have "fire_reaches grid n (last q)"
    unfolding fire_reaches_def fire_walk_def by (intro exI[of _ q]) simp
  with \<open>adjacent (last q) c'\<close> \<open>passable grid c'\<close> show ?thesis by blast
qed

lemma cell_at_rectangular:
  assumes "rectangular m cols rows" "in_bounds cols rows x y"
  shows "cell_at m x y = Inr (entry m (x, y))"
proof -
  from assms have y: "0 \<le> y" "y < int (length m)" by (auto simp: rectangular_def in_bounds_def)
  then have "m ! nat y \<in> set m" by simp
  with assms have x: "0 \<le> x" "x < int (length (m ! nat y))"
    by (auto simp: rectangular_def in_bounds_def)
  from y have "py_index m y = Inr (m ! nat y)" by (simp add: py_index_def)
  moreover from x have "py_index (m ! nat y) x = Inr (m ! nat y ! nat x)" by (simp add: py_index_def)
  ultimately show ?thesis by (simp add: cell_at_def entry_def)
qed

lemma rectangular_store_at:
  assumes "rectangular m cols rows"
  shows "rectangular (store_at m x y v) cols rows"
proof (cases "nat y < length m")
  case True
  then have "m ! nat y \<in> set m" by simp
  with assms have len: "int (length ((m ! nat y)[nat x := v])) = cols"
    by (simp add: rectangular_def)
  have "int (length r) = cols" if "r \<in> set (m[nat y := (m ! nat y)[nat x := v]])" for r
  proof -
    from that set_update_subset_insert[of m "nat y" "(m ! nat y)[nat x := v]"]
    have "r = (m ! nat y)[nat x := v] \<or> r \<in> set m" by auto
    with assms len show ?thesis by (auto simp: rectangular_def)
  qed
  with assms show ?thesis by (simp add: rectangular_def store_at_def)
next
  case False
  then have "store_at m x y v = m" by (simp add: store_at_def list_update_beyond)
  with assms show ?thesis by simp
qed

lemma entry_store_at:
  assumes "rectangular m cols rows" "in_bounds cols rows x y" "in_bounds cols rows (fst c) (snd c)"
  shows "entry (store_at m x y v) c = (if c = (x, y) then v else entry m c)"
proof -
  from assms have y: "0 \<le> y" "nat y < length m" by (auto simp: rectangular_def in_bounds_def)
  then have "m ! nat y \<in> set m" by simp
  with assms have x: "0 \<le> x" "nat x < length (m ! nat y)"
    by (auto simp: rectangular_def in_bounds_def)
  from assms(3) have c: "0 \<le> fst c" "0 \<le> snd c" by (auto simp: in_bounds_def)
  show ?thesis
  proof (cases "snd c = y")
    case True
    with x y c show ?thesis
      by (cases c) (auto simp: entry_def store_at_def nth_list_update)
  next
    case False
    with y c have "nat (snd c) \<noteq> nat y" by auto
    with False show ?thesis by (cases c) (auto simp: entry_def store_at_def)
  qed
qed

declare fire_loop.simps [simp del]

section \<open>Correctness of compute_fire_time\<close>

subsection \<open>The seeding loops\<close>

definition seeded :: "grid \<Rightarrow> int \<Rightarrow> int \<Rightarrow> pos set \<Rightarrow> fire_state \<Rightarrow> bool" where
  "seeded grid cols rows done s \<longleftrightarrow>
     rectangular (fst s) cols rows \<and>
     (\<forall>c. in_bounds cols rows (fst c) (snd c) \<longrightarrow>
        entry (fst s) c = (if c \<in> done \<and> fire_source grid c then 0 else \<infinity>)) \<and>
     set (snd s) = {c \<in> done. fire_source grid c} \<and>
     (\<forall>c \<in> done. in_bounds cols rows (fst c) (snd c))"

lemma seeded_entry:
  "seeded grid cols rows done s \<Longrightarrow> in_bounds cols rows (fst c) (snd c) \<Longrightarrow>
   entry (fst s) c = (if c \<in> done \<and> fire_source grid c then 0 else \<infinity>)"
  unfolding seeded_def by blast

lemma fire_source_rectangular:
  assumes "rectangular grid cols rows" "in_bounds cols rows x y"
  shows "fire_source grid (x, y) \<longleftrightarrow> entry grid (x, y) = CHR ''F''"
  using assms cell_at_rectangular[OF assms]
  by (auto simp: fire_source_def in_bounds_def)

lemma seed_row_seeded:
  assumes grid: "rectangular grid cols rows"
    and y: "0 \<le> y" "y < rows"
  shows "seeded grid cols rows done s \<Longrightarrow> \<forall>x\<in>set xs. 0 \<le> x \<and> x < cols \<Longrightarrow>
     \<exists>s'. seed_row grid y xs s = Inr s' \<and> seeded grid cols rows (done \<union> {(x, y) | x. x \<in> set xs}) s'"
proof (induction xs arbitrary: s "done")
  case Nil
  then show ?case by simp
next
  case (Cons x xs)
  from Cons.prems(2) y have b: "in_bounds cols rows x y" by (simp add: in_bounds_def)
  note cell = cell_at_rectangular[OF grid b]
  note src = fire_source_rectangular[OF grid b]
  let ?done = "insert (x, y) done"
  have set_eq: "?done \<union> {(x', y) | x'. x' \<in> set xs} = done \<union> {(x', y) | x'. x' \<in> set (x # xs)}"
    by auto
  show ?case
  proof (cases "entry grid (x, y) = CHR ''F''")
    case True
    let ?s = "(store_at (fst s) x y 0, snd s @ [(x, y)])"
    from Cons.prems(1) have r: "rectangular (fst s) cols rows" by (simp add: seeded_def)
    have "seeded grid cols rows ?done ?s"
      unfolding seeded_def
    proof (intro conjI allI impI ballI)
      show "rectangular (fst ?s) cols rows" using r by (simp add: rectangular_store_at)
    next
      fix c assume c: "in_bounds cols rows (fst c) (snd c)"
      from Cons.prems(1) c
      have "entry (fst s) c = (if c \<in> done \<and> fire_source grid c then 0 else \<infinity>)"
        by (rule seeded_entry)
      with entry_store_at[OF r b c, of 0] True src
      show "entry (fst ?s) c = (if c \<in> ?done \<and> fire_source grid c then 0 else \<infinity>)"
        by auto
    next
      from Cons.prems(1) have "set (snd s) = {c \<in> done. fire_source grid c}"
        by (simp add: seeded_def)
      with True src show "set (snd ?s) = {c \<in> ?done. fire_source grid c}" by auto
    next
      fix c assume "c \<in> ?done"
      with Cons.prems(1) b show "in_bounds cols rows (fst c) (snd c)"
        by (auto simp: seeded_def)
    qed
    from Cons.IH[OF this] Cons.prems(2) obtain s' where
      "seed_row grid y xs ?s = Inr s'"
      "seeded grid cols rows (?done \<union> {(x', y) | x'. x' \<in> set xs}) s'"
      by auto
    with cell True set_eq show ?thesis by simp
  next
    case False
    have "seeded grid cols rows ?done s"
      unfolding seeded_def
    proof (intro conjI allI impI ballI)
      show "rectangular (fst s) cols rows" using Cons.prems(1) by (simp add: seeded_def)
    next
      fix c assume c: "in_bounds cols rows (fst c) (snd c)"
      from Cons.prems(1) c
      have "entry (fst s) c = (if c \<in> done \<and> fire_source grid c then 0 else \<infinity>)"
        by (rule seeded_entry)
      with False src
      show "entry (fst s) c = (if c \<in> ?done \<and> fire_source grid c then 0 else \<infinity>)"
        by auto
    next
      from Cons.prems(1) have "set (snd s) = {c \<in> done. fire_source grid c}"
        by (simp add: seeded_def)
      with False src show "set (snd s) = {c \<in> ?done. fire_source grid c}" by auto
    next
      fix c assume "c \<in> ?done"
      with Cons.prems(1) b show "in_bounds cols rows (fst c) (snd c)"
        by (auto simp: seeded_def)
    qed
    from Cons.IH[OF this] Cons.prems(2) obtain s' where
      "seed_row grid y xs s = Inr s'"
      "seeded grid cols rows (?done \<union> {(x', y) | x'. x' \<in> set xs}) s'"
      by auto
    with cell False set_eq show ?thesis by simp
  qed
qed

lemma seed_rows_seeded:
  assumes grid: "rectangular grid cols rows"
  shows "seeded grid cols rows done s \<Longrightarrow> \<forall>y\<in>set ys. 0 \<le> y \<and> y < rows \<Longrightarrow>
     \<exists>s'. seed_rows grid cols ys s = Inr s'
        \<and> seeded grid cols rows (done \<union> {(x, y) | x y. 0 \<le> x \<and> x < cols \<and> y \<in> set ys}) s'"
proof (induction ys arbitrary: s "done")
  case Nil
  then show ?case by simp
next
  case (Cons y ys)
  from Cons.prems(2) have y: "0 \<le> y" "y < rows" by auto
  have xs: "\<forall>x\<in>set [0..cols - 1]. 0 \<le> x \<and> x < cols" by auto
  from seed_row_seeded[OF grid y Cons.prems(1) xs] obtain s1 where
    s1: "seed_row grid y [0..cols - 1] s = Inr s1"
      "seeded grid cols rows (done \<union> {(x, y) | x. x \<in> set [0..cols - 1]}) s1"
    by blast
  from Cons.IH[OF s1(2)] Cons.prems(2) obtain s' where
    s': "seed_rows grid cols ys s1 = Inr s'"
      "seeded grid cols rows ((done \<union> {(x, y) | x. x \<in> set [0..cols - 1]})
          \<union> {(x, y) | x y. 0 \<le> x \<and> x < cols \<and> y \<in> set ys}) s'"
    by auto
  have "(done \<union> {(x, y) | x. x \<in> set [0..cols - 1]})
          \<union> {(x, y) | x y. 0 \<le> x \<and> x < cols \<and> y \<in> set ys}
      = done \<union> {(x, y') | x y'. 0 \<le> x \<and> x < cols \<and> y' \<in> set (y # ys)}"
    by auto
  with s1(1) s' show ?case by simp
qed

lemma entry_replicate:
  "in_bounds cols rows (fst c) (snd c) \<Longrightarrow> entry (replicate (nat rows) (replicate (nat cols) v)) c = v"
  by (simp add: entry_def in_bounds_def)

lemma seeding:
  assumes grid: "rectangular grid cols rows"
  shows "\<exists>s. seed_rows grid cols [0..rows - 1]
            (replicate (nat rows) (replicate (nat cols) \<infinity>), []) = Inr s
       \<and> seeded grid cols rows {c. in_bounds cols rows (fst c) (snd c)} s"
proof -
  from grid have rows: "0 \<le> rows" by (auto simp: rectangular_def)
  have cols: "0 \<le> cols \<or> rows = 0"
  proof (cases "grid = []")
    case True with grid show ?thesis by (simp add: rectangular_def)
  next
    case False
    then have "hd grid \<in> set grid" by simp
    with grid show ?thesis by (auto simp: rectangular_def)
  qed
  have r0: "rectangular (replicate (nat rows) (replicate (nat cols) (\<infinity> :: enat))) cols rows"
    using rows cols by (auto simp: rectangular_def)
  have "seeded grid cols rows {} (replicate (nat rows) (replicate (nat cols) \<infinity>), [])"
    unfolding seeded_def using r0 by (simp add: entry_replicate)
  from seed_rows_seeded[OF grid this, of "[0..rows - 1]"] obtain s where
    s: "seed_rows grid cols [0..rows - 1] (replicate (nat rows) (replicate (nat cols) \<infinity>), []) = Inr s"
      "seeded grid cols rows ({} \<union> {(x, y) | x y. 0 \<le> x \<and> x < cols \<and> y \<in> set [0..rows - 1]}) s"
    by auto
  have "{} \<union> {(x, y) | x y. 0 \<le> x \<and> x < cols \<and> y \<in> set [0..rows - 1]}
      = {c. in_bounds cols rows (fst c) (snd c)}"
    by (auto simp: in_bounds_def)
  with s show ?thesis by auto
qed

subsection \<open>The propagation loop\<close>

definition relaxed :: "grid \<Rightarrow> int \<Rightarrow> int \<Rightarrow> fire_map \<Rightarrow> pos \<Rightarrow> int \<times> int \<Rightarrow> bool" where
  \<comment> \<open>the neighbour of \<open>c\<close> in direction \<open>d\<close> burns at most one step after \<open>c\<close>\<close>
  "relaxed grid cols rows ft c d \<longleftrightarrow>
     (let c' = (fst c + fst d, snd c + snd d) in
      in_bounds cols rows (fst c') (snd c') \<longrightarrow> free_cell grid c' \<longrightarrow>
      entry ft c' \<le> entry ft c + 1)"

definition fire_inv ::
  "grid \<Rightarrow> int \<Rightarrow> int \<Rightarrow> fire_map \<Rightarrow> (pos \<times> (int \<times> int)) set \<Rightarrow> bool" where
  "fire_inv grid cols rows ft todo \<longleftrightarrow>
     rectangular ft cols rows \<and>
     (\<forall>c n. in_bounds cols rows (fst c) (snd c) \<longrightarrow> entry ft c = enat n \<longrightarrow> fire_reaches grid n c) \<and>
     (\<forall>c. in_bounds cols rows (fst c) (snd c) \<longrightarrow> fire_source grid c \<longrightarrow> entry ft c = 0) \<and>
     (\<forall>c d. in_bounds cols rows (fst c) (snd c) \<longrightarrow> d \<in> set directions \<longrightarrow> (c, d) \<notin> todo \<longrightarrow>
        relaxed grid cols rows ft c d)"

lemma fire_inv_rect: "fire_inv grid cols rows ft todo \<Longrightarrow> rectangular ft cols rows"
  unfolding fire_inv_def by blast

lemma fire_inv_sound:
  "fire_inv grid cols rows ft todo \<Longrightarrow> in_bounds cols rows (fst c) (snd c) \<Longrightarrow>
   entry ft c = enat n \<Longrightarrow> fire_reaches grid n c"
  unfolding fire_inv_def by blast

lemma fire_inv_source:
  "fire_inv grid cols rows ft todo \<Longrightarrow> in_bounds cols rows (fst c) (snd c) \<Longrightarrow>
   fire_source grid c \<Longrightarrow> entry ft c = 0"
  unfolding fire_inv_def by blast

lemma fire_inv_relaxed:
  "fire_inv grid cols rows ft todo \<Longrightarrow> in_bounds cols rows (fst c) (snd c) \<Longrightarrow>
   d \<in> set directions \<Longrightarrow> (c, d) \<notin> todo \<Longrightarrow> relaxed grid cols rows ft c d"
  unfolding fire_inv_def by blast

lemma fire_invI:
  assumes "rectangular ft cols rows"
    and "\<And>c n. in_bounds cols rows (fst c) (snd c) \<Longrightarrow> entry ft c = enat n \<Longrightarrow> fire_reaches grid n c"
    and "\<And>c. in_bounds cols rows (fst c) (snd c) \<Longrightarrow> fire_source grid c \<Longrightarrow> entry ft c = 0"
    and "\<And>c d. in_bounds cols rows (fst c) (snd c) \<Longrightarrow> d \<in> set directions \<Longrightarrow> (c, d) \<notin> todo \<Longrightarrow>
        relaxed grid cols rows ft c d"
  shows "fire_inv grid cols rows ft todo"
  unfolding fire_inv_def using assms by blast

lemma directions_nonzero: "d \<in> set directions \<Longrightarrow> d \<noteq> (0, 0)"
  by (auto simp: directions_def)

lemma spread_inv:
  assumes grid: "rectangular grid cols rows"
    and inv: "fire_inv grid cols rows ft (set q \<times> set directions \<union> {current} \<times> set (d # ds))"
    and cur: "in_bounds cols rows (fst current) (snd current)" "entry ft current = t"
    and d: "d \<in> set directions"
    and q: "\<forall>c\<in>set q. in_bounds cols rows (fst c) (snd c)"
  shows "\<exists>ft' q'. spread grid rows cols current t d (ft, q) = Inr (ft', q')
       \<and> fire_inv grid cols rows ft' (set q' \<times> set directions \<union> {current} \<times> set ds)
       \<and> entry ft' current = t
       \<and> (\<forall>c\<in>set q'. in_bounds cols rows (fst c) (snd c))"
proof -
  let ?n = "(fst current + fst d, snd current + snd d)"
  let ?todo = "set q \<times> set directions \<union> {current} \<times> set (d # ds)"
  note rect = fire_inv_rect[OF inv]
  have weaken: "fire_inv grid cols rows ft (set q \<times> set directions \<union> {current} \<times> set ds)"
    if "relaxed grid cols rows ft current d"
  proof (rule fire_invI)
    fix c d'
    assume c: "in_bounds cols rows (fst c) (snd c)" "d' \<in> set directions"
      "(c, d') \<notin> set q \<times> set directions \<union> {current} \<times> set ds"
    show "relaxed grid cols rows ft c d'"
    proof (cases "(c, d') = (current, d)")
      case True with that show ?thesis by simp
    next
      case False
      with c(3) have "(c, d') \<notin> ?todo" by auto
      from fire_inv_relaxed[OF inv c(1,2) this] show ?thesis .
    qed
  qed (use inv in \<open>auto intro: fire_inv_rect fire_inv_sound fire_inv_source\<close>)
  show ?thesis
  proof (cases "in_bounds cols rows (fst ?n) (snd ?n) \<and> free_cell grid ?n")
    case False
    then have "relaxed grid cols rows ft current d" by (auto simp: relaxed_def Let_def)
    from weaken[OF this] have "fire_inv grid cols rows ft (set q \<times> set directions \<union> {current} \<times> set ds)" .
    moreover have "spread grid rows cols current t d (ft, q) = Inr (ft, q)"
    proof (cases "in_bounds cols rows (fst ?n) (snd ?n)")
      case True
      with False have "\<not> free_cell grid ?n" by simp
      with True cell_at_rectangular[OF grid, of "fst ?n" "snd ?n"] show ?thesis
        by (simp add: spread_def Let_def free_cell_def)
    next
      case False
      then show ?thesis by (simp add: spread_def Let_def)
    qed
    ultimately show ?thesis using cur(2) q by blast
  next
    case True
    then have nb: "in_bounds cols rows (fst ?n) (snd ?n)" and free: "free_cell grid ?n" by auto
    from free have cell: "\<exists>ch. cell_at grid (fst ?n) (snd ?n) = Inr ch \<and> ch \<noteq> CHR ''#''"
      by (auto simp: free_cell_def split: sum.splits)
    have rd: "cell_at ft (fst ?n) (snd ?n) = Inr (entry ft ?n)"
      using cell_at_rectangular[OF rect nb] by simp
    show ?thesis
    proof (cases "entry ft ?n > t + 1")
      case False
      then have "relaxed grid cols rows ft current d"
        using cur(2) by (auto simp: relaxed_def Let_def)
      from weaken[OF this]
      have "fire_inv grid cols rows ft (set q \<times> set directions \<union> {current} \<times> set ds)" .
      moreover from False nb cell rd
      have "spread grid rows cols current t d (ft, q) = Inr (ft, q)"
        by (auto simp: spread_def Let_def)
      ultimately show ?thesis using cur(2) q by blast
    next
      case lower: True
      let ?ft = "store_at ft (fst ?n) (snd ?n) (t + 1)"
      let ?q = "q @ [?n]"
      from lower obtain k where k: "t = enat k" by (cases t) auto
      from directions_nonzero[OF d] have ne: "?n \<noteq> current" by (cases d; cases current) auto
      have new: "entry ?ft c = (if c = ?n then t + 1 else entry ft c)"
        if "in_bounds cols rows (fst c) (snd c)" for c
        using entry_store_at[OF rect nb that, of "t + 1"] by simp
      have le: "entry ?ft c \<le> entry ft c" if "in_bounds cols rows (fst c) (snd c)" for c
        using new[OF that] lower by auto
      from nb have pass: "passable grid ?n" using free by (simp add: passable_def in_bounds_def)
      have adj: "adjacent current ?n" using d by (simp add: adjacent_def)
      have step: "spread grid rows cols current t d (ft, q) = Inr (?ft, ?q)"
        using lower nb cell rd by (auto simp: spread_def Let_def)
      have "fire_inv grid cols rows ?ft (set ?q \<times> set directions \<union> {current} \<times> set ds)"
      proof (rule fire_invI)
        show "rectangular ?ft cols rows" using rect by (rule rectangular_store_at)
      next
        fix c n assume c: "in_bounds cols rows (fst c) (snd c)" "entry ?ft c = enat n"
        show "fire_reaches grid n c"
        proof (cases "c = ?n")
          case True
          with new[OF c(1)] c(2) k have "enat k + 1 = enat n" by simp
          then have "n = Suc k" by (simp add: one_enat_def)
          moreover from fire_inv_sound[OF inv cur(1)] cur(2) k have "fire_reaches grid k current"
            by simp
          ultimately show ?thesis using True fire_reaches_step[OF _ adj pass] by simp
        next
          case False
          with new[OF c(1)] c(2) have "entry ft c = enat n" by simp
          from fire_inv_sound[OF inv c(1) this] show ?thesis .
        qed
      next
        fix c assume c: "in_bounds cols rows (fst c) (snd c)" "fire_source grid c"
        from fire_inv_source[OF inv c] have "entry ft c = 0" .
        with le[OF c(1)] show "entry ?ft c = 0" by simp
      next
        fix c d'
        assume c: "in_bounds cols rows (fst c) (snd c)" "d' \<in> set directions"
          "(c, d') \<notin> set ?q \<times> set directions \<union> {current} \<times> set ds"
        let ?c' = "(fst c + fst d', snd c + snd d')"
        from c(2,3) have cn: "c \<noteq> ?n" by auto
        then have same: "entry ?ft c = entry ft c" using new[OF c(1)] by simp
        show "relaxed grid cols rows ?ft c d'"
        proof (cases "(c, d') = (current, d)")
          case True
          then have "?c' = ?n" by simp
          with new[OF nb] same True cur(2) show ?thesis
            by (simp add: relaxed_def Let_def)
        next
          case False
          with c(3) have "(c, d') \<notin> ?todo" by auto
          from fire_inv_relaxed[OF inv c(1,2) this]
          have old: "relaxed grid cols rows ft c d'" .
          show ?thesis
            unfolding relaxed_def Let_def
          proof (intro impI)
            assume b: "in_bounds cols rows (fst ?c') (snd ?c')" and f: "free_cell grid ?c'"
            from old b f have "entry ft ?c' \<le> entry ft c + 1" by (simp add: relaxed_def Let_def)
            with le[OF b] same show "entry ?ft ?c' \<le> entry ?ft c + 1" by simp
          qed
        qed
      qed
      moreover have "entry ?ft current = t" using new[OF cur(1)] ne cur(2) by simp
      moreover have "\<forall>c\<in>set ?q. in_bounds cols rows (fst c) (snd c)" using q nb by simp
      ultimately show ?thesis using step by blast
    qed
  qed
qed

lemma spread_all_inv:
  assumes grid: "rectangular grid cols rows"
    and cur: "in_bounds cols rows (fst current) (snd current)"
  shows "fire_inv grid cols rows ft (set q \<times> set directions \<union> {current} \<times> set ds) \<Longrightarrow>
     entry ft current = t \<Longrightarrow> set ds \<subseteq> set directions \<Longrightarrow>
     \<forall>c\<in>set q. in_bounds cols rows (fst c) (snd c) \<Longrightarrow>
     \<exists>ft' q'. spread_all grid rows cols current t ds (ft, q) = Inr (ft', q')
       \<and> fire_inv grid cols rows ft' (set q' \<times> set directions)
       \<and> (\<forall>c\<in>set q'. in_bounds cols rows (fst c) (snd c))"
proof (induction ds arbitrary: ft q)
  case Nil
  then show ?case by simp
next
  case (Cons d ds)
  from Cons.prems(3) have d: "d \<in> set directions" and ds: "set ds \<subseteq> set directions" by auto
  from spread_inv[OF grid Cons.prems(1) cur Cons.prems(2) d Cons.prems(4)]
  obtain ft1 q1 where 1: "spread grid rows cols current t d (ft, q) = Inr (ft1, q1)"
    "fire_inv grid cols rows ft1 (set q1 \<times> set directions \<union> {current} \<times> set ds)"
    "entry ft1 current = t" "\<forall>c\<in>set q1. in_bounds cols rows (fst c) (snd c)"
    by blast
  from Cons.IH[OF 1(2,3) ds 1(4)] 1(1) show ?case by simp
qed

lemma fire_loop_inv:
  assumes grid: "rectangular grid cols rows"
  shows "fire_inv grid cols rows (fst s) (set (snd s) \<times> set directions) \<Longrightarrow>
     \<forall>c\<in>set (snd s). in_bounds cols rows (fst c) (snd c) \<Longrightarrow>
     \<exists>ft. fire_loop grid rows cols s = Inr ft \<and> fire_inv grid cols rows ft {}"
  using grid
proof (induction grid rows cols s rule: fire_loop.induct)
  case (1 grid rows cols s)
  show ?case
  proof (cases "snd s")
    case Nil
    with "1.prems"(1) show ?thesis by (subst fire_loop.simps) simp
  next
    case (Cons current q)
    with "1.prems"(2) have cur: "in_bounds cols rows (fst current) (snd current)"
      and q: "\<forall>c\<in>set q. in_bounds cols rows (fst c) (snd c)" by auto
    note rect = fire_inv_rect[OF "1.prems"(1)]
    have rd: "cell_at (fst s) (fst current) (snd current) = Inr (entry (fst s) current)"
      using cell_at_rectangular[OF rect cur] by simp
    have "set (snd s) \<times> set directions = set q \<times> set directions \<union> {current} \<times> set directions"
      using Cons by auto
    with "1.prems"(1)
    have inv: "fire_inv grid cols rows (fst s) (set q \<times> set directions \<union> {current} \<times> set directions)"
      by simp
    from spread_all_inv[OF "1.prems"(3) cur inv refl subset_refl q]
    obtain ft' q' where sp: "spread_all grid rows cols current (entry (fst s) current) directions (fst s, q)
          = Inr (ft', q')"
      and inv': "fire_inv grid cols rows ft' (set q' \<times> set directions)"
      and q': "\<forall>c\<in>set q'. in_bounds cols rows (fst c) (snd c)"
      by blast
    from "1.IH"[OF Cons rd sp] inv' q' "1.prems"(3)
    obtain ft where "fire_loop grid rows cols (ft', q') = Inr ft" "fire_inv grid cols rows ft {}"
      by auto
    with Cons rd sp show ?thesis by (subst fire_loop.simps) simp
  qed
qed

subsection \<open>The result of compute_fire_time\<close>

lemma seeded_fire_inv:
  assumes "seeded grid cols rows {c. in_bounds cols rows (fst c) (snd c)} s"
  shows "fire_inv grid cols rows (fst s) (set (snd s) \<times> set directions)"
    and "\<forall>c\<in>set (snd s). in_bounds cols rows (fst c) (snd c)"
proof -
  have val: "entry (fst s) c = (if fire_source grid c then 0 else \<infinity>)"
    if "in_bounds cols rows (fst c) (snd c)" for c
    using seeded_entry[OF assms that] that by simp
  have q: "set (snd s) = {c. in_bounds cols rows (fst c) (snd c) \<and> fire_source grid c}"
    using assms unfolding seeded_def by blast
  then show "\<forall>c\<in>set (snd s). in_bounds cols rows (fst c) (snd c)" by blast
  show "fire_inv grid cols rows (fst s) (set (snd s) \<times> set directions)"
  proof (rule fire_invI)
    show "rectangular (fst s) cols rows" using assms unfolding seeded_def by blast
  next
    fix c n assume c: "in_bounds cols rows (fst c) (snd c)" "entry (fst s) c = enat n"
    with val[OF c(1)] have "fire_source grid c \<and> n = 0"
      by (auto simp: zero_enat_def split: if_splits)
    then show "fire_reaches grid n c" by (simp add: fire_reaches_0)
  next
    fix c assume "in_bounds cols rows (fst c) (snd c)" "fire_source grid c"
    with val show "entry (fst s) c = 0" by simp
  next
    fix c d
    assume c: "in_bounds cols rows (fst c) (snd c)" "d \<in> set directions"
      "(c, d) \<notin> set (snd s) \<times> set directions"
    with q have "\<not> fire_source grid c" by auto
    with val[OF c(1)] have "entry (fst s) c = \<infinity>" by simp
    then show "relaxed grid cols rows (fst s) c d" by (simp add: relaxed_def Let_def)
  qed
qed

definition well_formed :: "grid \<Rightarrow> bool" where
  \<comment> \<open>a rectangular grid with at least one row\<close>
  "well_formed grid \<longleftrightarrow> grid \<noteq> [] \<and> (\<forall>row\<in>set grid. length row = length (grid ! 0))"

definition n_cols :: "grid \<Rightarrow> int" where "n_cols grid = int (length (grid ! 0))"
definition n_rows :: "grid \<Rightarrow> int" where "n_rows grid = int (length grid)"

lemma well_formed_rectangular:
  assumes "well_formed grid"
  shows "rectangular grid (n_cols grid) (n_rows grid)"
proof -
  have "int (length row) = n_cols grid" if "row \<in> set grid" for row
  proof -
    from assms that have "length row = length (grid ! 0)"
      unfolding well_formed_def by blast
    then show ?thesis unfolding n_cols_def by (rule arg_cong)
  qed
  then show ?thesis
    unfolding rectangular_def n_rows_def by blast
qed

lemma compute_fire_time_inv:
  assumes "well_formed grid"
  shows "\<exists>ft. compute_fire_time grid = Inr ft \<and> fire_inv grid (n_cols grid) (n_rows grid) ft {}"
proof -
  note grid = well_formed_rectangular[OF assms]
  from assms have row0: "py_index grid 0 = Inr (grid ! 0)"
    by (simp add: well_formed_def py_index_def)
  from seeding[OF grid] obtain s where
    s: "seed_rows grid (n_cols grid) [0..n_rows grid - 1]
          (replicate (nat (n_rows grid)) (replicate (nat (n_cols grid)) \<infinity>), []) = Inr s"
      "seeded grid (n_cols grid) (n_rows grid)
          {c. in_bounds (n_cols grid) (n_rows grid) (fst c) (snd c)} s"
    by blast
  from fire_loop_inv[OF grid seeded_fire_inv[OF s(2)]] obtain ft where
    ft: "fire_loop grid (n_rows grid) (n_cols grid) s = Inr ft"
      "fire_inv grid (n_cols grid) (n_rows grid) ft {}"
    by blast
  have "compute_fire_time grid = Inr ft"
    unfolding compute_fire_time_def Let_def
    using row0 s(1)[unfolded n_cols_def n_rows_def] ft(1)[unfolded n_cols_def n_rows_def]
    by (simp only: sum.case)
  with ft(2) show ?thesis by blast
qed

lemma cell_in_bounds:
  assumes "rectangular m cols rows" "0 \<le> x" "0 \<le> y" "cell_at m x y = Inr v"
  shows "in_bounds cols rows x y"
proof -
  from cell_at_nonneg[OF assms(4,2,3)] have y: "nat y < length m" and x: "nat x < length (m ! nat y)"
    by auto
  from y have "m ! nat y \<in> set m" by simp
  with assms(1) have "int (length (m ! nat y)) = cols" "int (length m) = rows"
    by (auto simp: rectangular_def)
  with x y assms(2,3) show ?thesis
    by (auto simp: in_bounds_def)
qed

lemma passable_in_bounds:
  assumes "rectangular grid cols rows" "passable grid c"
  shows "in_bounds cols rows (fst c) (snd c)"
proof -
  from assms(2) obtain ch where "0 \<le> fst c" "0 \<le> snd c" "cell_at grid (fst c) (snd c) = Inr ch"
    by (auto simp: passable_def free_cell_def split: sum.splits)
  with assms(1) show ?thesis by (intro cell_in_bounds)
qed

lemma fire_source_in_bounds:
  assumes "rectangular grid cols rows" "fire_source grid c"
  shows "in_bounds cols rows (fst c) (snd c)"
proof -
  from assms(2) have "0 \<le> fst c" "0 \<le> snd c" "cell_at grid (fst c) (snd c) = Inr CHR ''F''"
    by (auto simp: fire_source_def)
  with assms(1) show ?thesis by (intro cell_in_bounds)
qed

lemma adjacent_direction:
  "adjacent c c' \<Longrightarrow> \<exists>d\<in>set directions. c' = (fst c + fst d, snd c + snd d)"
  unfolding adjacent_def by (intro bexI[of _ "(fst c' - fst c, snd c' - snd c)"]) auto

lemma adjacent_sym: "adjacent a b \<Longrightarrow> adjacent b a"
  by (auto simp: adjacent_def directions_def)

lemma fire_inv_step:
  assumes grid: "rectangular grid cols rows"
    and inv: "fire_inv grid cols rows ft {}"
    and c: "in_bounds cols rows (fst c) (snd c)"
    and adj: "adjacent c c'" and pass: "passable grid c'"
  shows "entry ft c' \<le> entry ft c + 1"
proof -
  from adjacent_direction[OF adj] obtain d where d: "d \<in> set directions"
    "c' = (fst c + fst d, snd c + snd d)" by blast
  from fire_inv_relaxed[OF inv c d(1)] have "relaxed grid cols rows ft c d" by simp
  moreover from passable_in_bounds[OF grid pass] have "in_bounds cols rows (fst c') (snd c')" .
  moreover from pass have "free_cell grid c'" by (simp add: passable_def)
  ultimately show ?thesis using d(2) by (simp add: relaxed_def Let_def)
qed

lemma fire_inv_complete:
  assumes grid: "rectangular grid cols rows"
    and inv: "fire_inv grid cols rows ft {}"
  shows "fire_reaches grid n c \<Longrightarrow> in_bounds cols rows (fst c) (snd c) \<and> entry ft c \<le> enat n"
proof (induction n arbitrary: c)
  case 0
  then have src: "fire_source grid c" by (simp add: fire_reaches_0)
  from fire_source_in_bounds[OF grid src] fire_inv_source[OF inv _ src] show ?case by simp
next
  case (Suc n)
  from fire_reaches_Suc[OF Suc.prems] obtain b where
    b: "fire_reaches grid n b" "adjacent b c" "passable grid c" by blast
  from Suc.IH[OF b(1)] have ib: "in_bounds cols rows (fst b) (snd b)" and le: "entry ft b \<le> enat n"
    by auto
  from fire_inv_step[OF grid inv ib b(2,3)] have "entry ft c \<le> entry ft b + 1" .
  also from le have "\<dots> \<le> enat n + 1" by (simp add: add_right_mono)
  also have "\<dots> = enat (Suc n)" by (simp add: one_enat_def)
  finally show ?case using passable_in_bounds[OF grid b(3)] by simp
qed

lemma fire_inv_distance:
  assumes grid: "rectangular grid cols rows"
    and inv: "fire_inv grid cols rows ft {}"
    and c: "in_bounds cols rows (fst c) (snd c)"
  shows "fire_distance grid c (entry ft c)"
proof (cases "entry ft c")
  case (enat n)
  from fire_inv_sound[OF inv c enat] have "fire_reaches grid n c" .
  moreover have "n \<le> m" if "fire_reaches grid m c" for m
    using fire_inv_complete[OF grid inv that] enat by simp
  ultimately show ?thesis using enat by (simp add: fire_distance_def)
next
  case infinity
  have "\<not> fire_reaches grid m c" for m
    using fire_inv_complete[OF grid inv, of m c] infinity by auto
  with infinity show ?thesis by (simp add: fire_distance_def)
qed


section \<open>Properties of the searches\<close>

text \<open>
  C4 (as the code has it): a kind outside manhattan, euclidean and zero is not rejected;
  the last branch of \<open>heuristic\<close> returns the Manhattan distance for it.
\<close>

theorem heuristic_unknown_mode_manhattan:
  assumes "mode \<notin> {''manhattan'', ''euclidean'', ''zero''}"
  shows "heuristic (x1, y1) (x2, y2) mode = of_int (\<bar>x1 - x2\<bar> + \<bar>y1 - y2\<bar>)
       \<and> heuristic (x1, y1) (x2, y2) mode = heuristic (x1, y1) (x2, y2) ''manhattan''"
  using assms by (simp add: heuristic_def)

theorem heuristic_unknown_mode_manhattan_witness:
  "''chebyshev'' \<notin> {''manhattan'', ''euclidean'', ''zero''}
   \<and> heuristic (0, 0) (1, 2) ''chebyshev'' = of_int (\<bar>0 - 1\<bar> + \<bar>0 - 2\<bar>)
   \<and> heuristic (0, 0) (1, 2) ''chebyshev'' = heuristic (0, 0) (1, 2) ''manhattan''"
proof -
  have m: "''chebyshev'' \<notin> {''manhattan'', ''euclidean'', ''zero''}" by simp
  from heuristic_unknown_mode_manhattan[OF m, of 0 0 1 2] m show ?thesis by blast
qed

text \<open>
  C4 as the spec states it fails: for the unrecognised kind \<open>chebyshev\<close> the call returns
  the number 3, the Manhattan distance, where the claim wants an error.
\<close>

theorem heuristic_unknown_mode_counterexample:
  "''chebyshev'' \<notin> {''manhattan'', ''euclidean'', ''zero''}
   \<and> heuristic (0, 0) (1, 2) ''chebyshev'' = 3"
  by (simp add: heuristic_def)

text \<open>
  C5: on a grid with at least one row, when the fire time read at the start position is
  at most 0, \<open>a_star_with_fire\<close> returns the empty path at once: no error is raised
  and the Algorithm object is left as it was.
\<close>

theorem a_star_with_fire_start_on_fire:
  assumes "grid \<noteq> []"
    and "cell_at fire_time (fst start) (snd start) = Inr fire"
    and "fire \<le> 0"
  shows "a_star_with_fire self grid start endp fire_time mode = Some (Inr [], self)"
proof -
  from assms(1) have "py_index grid 0 = Inr (grid ! 0)"
    by (simp add: py_index_def)
  with assms(2,3) show ?thesis
    by (simp add: a_star_with_fire_def Let_def)
qed

theorem a_star_with_fire_start_on_fire_witness:
  "[''...'', ''...'', ''F.S''] \<noteq> []
   \<and> cell_at [[2, 3, 4], [1, 2, 3], [0, 1, 2 :: enat]] (fst (0, 2)) (snd (0, 2)) = Inr 0
   \<and> (0 :: enat) \<le> 0
   \<and> a_star_with_fire Algorithm_init [''...'', ''...'', ''F.S''] (0, 2) (2, 2)
        [[2, 3, 4], [1, 2, 3], [0, 1, 2]] ''manhattan'' = Some (Inr [], Algorithm_init)"
proof -
  have g: "[''...'', ''...'', ''F.S''] \<noteq> []" by simp
  have c: "cell_at [[2, 3, 4], [1, 2, 3], [0, 1, 2 :: enat]] (fst (0, 2)) (snd (0, 2)) = Inr 0"
    by (simp add: cell_at_def py_index_def)
  have z: "(0 :: enat) \<le> 0" by simp
  from a_star_with_fire_start_on_fire[OF g c z] g c z show ?thesis by blast
qed

text \<open>
  C6 fails on the code: \<open>a_star_with_fire\<close> returns for a start already on fire before
  it reaches \<open>self.expanded_nodes = 0\<close>. After a hazard-blind search that expanded two
  nodes, the immediate failure leaves the counter at 2.
\<close>

theorem expanded_nodes_stale_after_immediate_failure:
  "a_star_no_fire Algorithm_init [''...'', ''...'', ''F.S''] (0, 2) (2, 2) ''manhattan''
     = Some (Inr [(0, 2), (1, 2), (2, 2)], \<lparr>expanded_nodes = 2\<rparr>)
   \<and> compute_fire_time [''...'', ''...'', ''F.S''] = Inr [[2, 3, 4], [1, 2, 3], [0, 1, 2]]
   \<and> a_star_with_fire \<lparr>expanded_nodes = 2\<rparr> [''...'', ''...'', ''F.S''] (0, 2) (2, 2)
        [[2, 3, 4], [1, 2, 3], [0, 1, 2]] ''manhattan''
     = Some (Inr [], \<lparr>expanded_nodes = 2\<rparr>)"
  by code_simp

text \<open>
  C1: \<open>a_star_with_fire\<close> always returns (a path or an error, never a loop without
  end), and in every path it returns the fire reaches the cell at index \<open>i\<close> strictly
  after time \<open>i\<close>: \<open>fire_time[y][x] > i\<close> for \<open>(x, y) = path[i]\<close>.
\<close>

theorem a_star_with_fire_path_safe:
  "(\<exists>r. a_star_with_fire self grid start endp fire_time mode = Some r) \<and>
   (\<forall>path self'. a_star_with_fire self grid start endp fire_time mode = Some (Inr path, self')
      \<longrightarrow> (\<forall>i<length path. fire_later fire_time (path ! i) i))"
proof (cases rule: a_star_with_fire_result[of self grid start endp fire_time mode])
  case (raised e s)
  then show ?thesis by simp
next
  case (none s)
  then show ?thesis by simp
next
  case (found st s path)
  have "fire_later fire_time (path ! i) i" if "i < length path" for i
  proof -
    from found(5) that obtain gv where "i \<le> gv"
      "fire_ok grid (int (length (grid ! 0))) (int (length grid)) start fire_time (path ! i) gv"
      by blast
    then show ?thesis by (auto simp: fire_ok_def intro: fire_later_mono)
  qed
  with found(1) show ?thesis by simp
qed

theorem a_star_with_fire_path_safe_witness:
  "a_star_with_fire Algorithm_init [''.F.'', ''...'', ''D.S''] (0, 2) (2, 2)
      [[1, 0, 1], [2, 1, 2], [3, 2, 3]] ''manhattan''
     = Some (Inr [(0, 2), (1, 2), (2, 2)], \<lparr>expanded_nodes = 2\<rparr>)
   \<and> fire_later [[1, 0, 1], [2, 1, 2], [3, 2, 3]] ([(0, 2), (1, 2), (2, 2)] ! 1) 1"
proof -
  have run: "a_star_with_fire Algorithm_init [''.F.'', ''...'', ''D.S''] (0, 2) (2, 2)
      [[1, 0, 1], [2, 1, 2], [3, 2, 3]] ''manhattan''
     = Some (Inr [(0, 2), (1, 2), (2, 2)], \<lparr>expanded_nodes = 2\<rparr>)"
    by code_simp
  have "1 < length [(0, 2), (1, 2), (2 :: int, 2 :: int)]" by simp
  with a_star_with_fire_path_safe[of Algorithm_init "[''.F.'', ''...'', ''D.S'']" "(0, 2)" "(2, 2)"
      "[[1, 0, 1], [2, 1, 2], [3, 2, 3]]" "''manhattan''"] run
  show ?thesis by blast
qed

text \<open>
  C8 (as the code has it): every cell of a path returned by either search, other than
  the start position, lies at non-negative coordinates of the grid and is not a wall.
  Neither search ever reads the cell of the start position.
\<close>

theorem path_cells_not_wall:
  "(a_star_no_fire self grid start endp mode = Some (Inr path, self')
      \<longrightarrow> (\<forall>c\<in>set path. c \<noteq> start \<longrightarrow> 0 \<le> fst c \<and> 0 \<le> snd c \<and> free_cell grid c))
   \<and> (a_star_with_fire self2 grid2 start2 endp2 fire_time mode2 = Some (Inr path2, self2')
      \<longrightarrow> (\<forall>c\<in>set path2. c \<noteq> start2 \<longrightarrow> 0 \<le> fst c \<and> 0 \<le> snd c \<and> free_cell grid2 c))"
proof -
  have "0 \<le> fst c \<and> 0 \<le> snd c \<and> free_cell grid c"
    if run: "a_star_no_fire self grid start endp mode = Some (Inr path, self')"
      and c: "c \<in> set path" "c \<noteq> start" for c
  proof -
    from c(1) obtain i where i: "i < length path" "c = path ! i" by (auto simp: in_set_conv_nth)
    show ?thesis
    proof (cases rule: a_star_no_fire_result[of self grid start endp mode])
      case (raised e s)
      with run show ?thesis by simp
    next
      case (none s)
      with run c show ?thesis by simp
    next
      case (found st s p)
      with run have "p = path" by simp
      with found(5) i obtain gv where
        "plain_ok grid (int (length (grid ! 0))) (int (length grid)) start c gv" by blast
      with c(2) show ?thesis by (simp add: plain_ok_def in_bounds_def)
    qed
  qed
  moreover have "0 \<le> fst c \<and> 0 \<le> snd c \<and> free_cell grid2 c"
    if run: "a_star_with_fire self2 grid2 start2 endp2 fire_time mode2 = Some (Inr path2, self2')"
      and c: "c \<in> set path2" "c \<noteq> start2" for c
  proof -
    from c(1) obtain i where i: "i < length path2" "c = path2 ! i" by (auto simp: in_set_conv_nth)
    show ?thesis
    proof (cases rule: a_star_with_fire_result[of self2 grid2 start2 endp2 fire_time mode2])
      case (raised e s)
      with run show ?thesis by simp
    next
      case (none s)
      with run c show ?thesis by simp
    next
      case (found st s p)
      with run have "p = path2" by simp
      with found(5) i obtain gv where
        "fire_ok grid2 (int (length (grid2 ! 0))) (int (length grid2)) start2 fire_time c gv" by blast
      with c(2) show ?thesis by (simp add: fire_ok_def plain_ok_def in_bounds_def)
    qed
  qed
  ultimately show ?thesis by blast
qed

theorem path_cells_not_wall_witness:
  "a_star_no_fire Algorithm_init [''#.S''] (0, 0) (2, 0) ''zero''
     = Some (Inr [(0, 0), (1, 0), (2, 0)], \<lparr>expanded_nodes = 2\<rparr>)
   \<and> a_star_with_fire Algorithm_init [''#.S''] (0, 0) (2, 0) [[\<infinity>, \<infinity>, \<infinity>]] ''zero''
     = Some (Inr [(0, 0), (1, 0), (2, 0)], \<lparr>expanded_nodes = 2\<rparr>)
   \<and> free_cell [''#.S''] (1, 0) \<and> free_cell [''#.S''] (2, 0)"
proof -
  have 1: "a_star_no_fire Algorithm_init [''#.S''] (0, 0) (2, 0) ''zero''
     = Some (Inr [(0, 0), (1, 0), (2, 0)], \<lparr>expanded_nodes = 2\<rparr>)"
    by code_simp
  have 2: "a_star_with_fire Algorithm_init [''#.S''] (0, 0) (2, 0) [[\<infinity>, \<infinity>, \<infinity>]] ''zero''
     = Some (Inr [(0, 0), (1, 0), (2, 0)], \<lparr>expanded_nodes = 2\<rparr>)"
    by code_simp
  from path_cells_not_wall[of Algorithm_init "[''#.S'']" "(0, 0)" "(2, 0)" "''zero''"
      "[(0, 0), (1, 0), (2, 0)]" "\<lparr>expanded_nodes = 2\<rparr>"
      Algorithm_init "[''#.S'']" "(0, 0)" "(2, 0)" "[[\<infinity>, \<infinity>, \<infinity>]]" "''zero''"
      "[(0, 0), (1, 0), (2, 0)]" "\<lparr>expanded_nodes = 2\<rparr>"] 1 2
  show ?thesis by simp
qed

text \<open>
  C8 as the spec states it fails: with the start on a wall cell, both searches return a
  path whose first cell is that wall.
\<close>

theorem path_cells_not_wall_counterexample:
  "a_star_no_fire Algorithm_init [''#.S''] (0, 0) (2, 0) ''zero''
     = Some (Inr [(0, 0), (1, 0), (2, 0)], \<lparr>expanded_nodes = 2\<rparr>)
   \<and> a_star_with_fire Algorithm_init [''#.S''] (0, 0) (2, 0) [[\<infinity>, \<infinity>, \<infinity>]] ''zero''
     = Some (Inr [(0, 0), (1, 0), (2, 0)], \<lparr>expanded_nodes = 2\<rparr>)
   \<and> in_bounds 3 1 0 0 \<and> cell_at [''#.S''] 0 0 = Inr CHR ''#''"
  by code_simp

section \<open>Properties of compute_fire_time\<close>

text \<open>
  C2: on a rectangular grid with at least one row, \<open>compute_fire_time\<close> returns a matrix
  of the grid's dimensions; the entry of every cell is the length of a shortest walk to
  it from an 'F' cell along 4-adjacent cells that are not walls, and \<open>\<infinity>\<close> (INF) when no
  such walk exists. So every 'F' cell holds 0, and without any 'F' cell every entry
  is INF.
\<close>

theorem compute_fire_time_shortest:
  assumes "well_formed grid"
  shows "\<exists>ft. compute_fire_time grid = Inr ft
     \<and> length ft = length grid \<and> (\<forall>row\<in>set ft. length row = length (grid ! 0))
     \<and> (\<forall>x y. in_bounds (n_cols grid) (n_rows grid) x y \<longrightarrow>
          fire_distance grid (x, y) (entry ft (x, y))
          \<and> (fire_source grid (x, y) \<longrightarrow> entry ft (x, y) = 0)
          \<and> ((\<forall>c. \<not> fire_source grid c) \<longrightarrow> entry ft (x, y) = \<infinity>))"
proof -
  note grid = well_formed_rectangular[OF assms]
  from compute_fire_time_inv[OF assms] obtain ft where
    ft: "compute_fire_time grid = Inr ft" "fire_inv grid (n_cols grid) (n_rows grid) ft {}"
    by blast
  from fire_inv_rect[OF ft(2)]
  have dims: "length ft = length grid" "\<forall>row\<in>set ft. length row = length (grid ! 0)"
    by (auto simp: rectangular_def n_cols_def n_rows_def)
  have cells: "fire_distance grid (x, y) (entry ft (x, y))
          \<and> (fire_source grid (x, y) \<longrightarrow> entry ft (x, y) = 0)
          \<and> ((\<forall>c. \<not> fire_source grid c) \<longrightarrow> entry ft (x, y) = \<infinity>)"
    if b: "in_bounds (n_cols grid) (n_rows grid) x y" for x y
  proof (intro conjI impI)
    from b have b': "in_bounds (n_cols grid) (n_rows grid) (fst (x, y)) (snd (x, y))" by simp
    show "fire_distance grid (x, y) (entry ft (x, y))"
      using fire_inv_distance[OF grid ft(2) b'] .
    show "entry ft (x, y) = 0" if "fire_source grid (x, y)"
      using fire_inv_source[OF ft(2) b' that] .
    show "entry ft (x, y) = \<infinity>" if none: "\<forall>c. \<not> fire_source grid c"
    proof (cases "entry ft (x, y)")
      case (enat n)
      from fire_inv_sound[OF ft(2) b' enat] obtain p where "fire_walk grid p"
        unfolding fire_reaches_def by blast
      then have "fire_source grid (hd p)" unfolding fire_walk_def by blast
      with none show ?thesis by blast
    next
      case infinity
      then show ?thesis .
    qed
  qed
  show ?thesis
    by (intro exI[of _ ft] conjI allI impI ft(1) dims cells)
qed

theorem compute_fire_time_shortest_witness:
  "well_formed [''.F.'', ''...'', ''D.S'']
   \<and> compute_fire_time [''.F.'', ''...'', ''D.S''] = Inr [[1, 0, 1], [2, 1, 2], [3, 2, 3]]
   \<and> fire_distance [''.F.'', ''...'', ''D.S''] (0, 2) 3"
proof -
  have wf: "well_formed [''.F.'', ''...'', ''D.S'']" by (simp add: well_formed_def)
  have run: "compute_fire_time [''.F.'', ''...'', ''D.S''] = Inr [[1, 0, 1], [2, 1, 2], [3, 2, 3]]"
    by code_simp
  have b: "in_bounds (n_cols [''.F.'', ''...'', ''D.S'']) (n_rows [''.F.'', ''...'', ''D.S'']) 0 2"
    by (simp add: in_bounds_def n_cols_def n_rows_def)
  from compute_fire_time_shortest[OF wf] obtain ft where
    ft: "compute_fire_time [''.F.'', ''...'', ''D.S''] = Inr ft"
    and dist: "\<forall>x y. in_bounds (n_cols [''.F.'', ''...'', ''D.S'']) (n_rows [''.F.'', ''...'', ''D.S'']) x y \<longrightarrow>
          fire_distance [''.F.'', ''...'', ''D.S''] (x, y) (entry ft (x, y))
          \<and> (fire_source [''.F.'', ''...'', ''D.S''] (x, y) \<longrightarrow> entry ft (x, y) = 0)
          \<and> ((\<forall>c. \<not> fire_source [''.F.'', ''...'', ''D.S''] c) \<longrightarrow> entry ft (x, y) = \<infinity>)"
    by blast
  from ft run have "ft = [[1, 0, 1], [2, 1, 2], [3, 2, 3]]" by simp
  with dist b
  have "fire_distance [''.F.'', ''...'', ''D.S''] (0, 2) (entry [[1, 0, 1], [2, 1, 2], [3, 2, 3]] (0, 2))"
    by blast
  then have "fire_distance [''.F.'', ''...'', ''D.S''] (0, 2) 3" by (simp add: entry_def)
  with wf run show ?thesis by simp
qed

text \<open>
  C7: in the matrix returned by \<open>compute_fire_time\<close> for a rectangular grid, the arrival
  times of two 4-adjacent cells that are not walls differ by at most 1 whenever both are
  finite.
\<close>

theorem compute_fire_time_propagation:
  assumes "well_formed grid"
  shows "\<exists>ft. compute_fire_time grid = Inr ft
     \<and> (\<forall>p q a b. passable grid p \<longrightarrow> passable grid q \<longrightarrow> adjacent p q \<longrightarrow>
          entry ft p = enat a \<longrightarrow> entry ft q = enat b \<longrightarrow> \<bar>int a - int b\<bar> \<le> 1)"
proof -
  note grid = well_formed_rectangular[OF assms]
  from compute_fire_time_inv[OF assms] obtain ft where
    ft: "compute_fire_time grid = Inr ft" "fire_inv grid (n_cols grid) (n_rows grid) ft {}"
    by blast
  have "\<bar>int a - int b\<bar> \<le> 1"
    if p: "passable grid p" and q: "passable grid q" and adj: "adjacent p q"
      and a: "entry ft p = enat a" and b: "entry ft q = enat b" for p q a b
  proof -
    from fire_inv_step[OF grid ft(2) passable_in_bounds[OF grid p] adj q] a b
    have "enat b \<le> enat a + 1" by simp
    then have 1: "b \<le> a + 1" by (simp add: one_enat_def)
    from fire_inv_step[OF grid ft(2) passable_in_bounds[OF grid q] adjacent_sym[OF adj] p] a b
    have "enat a \<le> enat b + 1" by simp
    then have 2: "a \<le> b + 1" by (simp add: one_enat_def)
    from 1 2 show ?thesis by linarith
  qed
  then have "\<forall>p q a b. passable grid p \<longrightarrow> passable grid q \<longrightarrow> adjacent p q \<longrightarrow>
          entry ft p = enat a \<longrightarrow> entry ft q = enat b \<longrightarrow> \<bar>int a - int b\<bar> \<le> 1"
    by blast
  with ft(1) show ?thesis by (intro exI[of _ ft] conjI)
qed

theorem compute_fire_time_propagation_witness:
  "well_formed [''.F.'', ''...'', ''D.S'']
   \<and> compute_fire_time [''.F.'', ''...'', ''D.S''] = Inr [[1, 0, 1], [2, 1, 2], [3, 2, 3]]
   \<and> passable [''.F.'', ''...'', ''D.S''] (0, 1) \<and> passable [''.F.'', ''...'', ''D.S''] (0, 2)
   \<and> adjacent (0, 1) (0, 2)
   \<and> \<bar>int 2 - int 3\<bar> \<le> 1"
proof -
  have wf: "well_formed [''.F.'', ''...'', ''D.S'']" by (simp add: well_formed_def)
  have run: "compute_fire_time [''.F.'', ''...'', ''D.S''] = Inr [[1, 0, 1], [2, 1, 2], [3, 2, 3]]"
    by code_simp
  have p: "passable [''.F.'', ''...'', ''D.S''] (0, 1)" "passable [''.F.'', ''...'', ''D.S''] (0, 2)"
    by (simp_all add: passable_def free_cell_def cell_at_def py_index_def)
  have adj: "adjacent (0, 1) (0, 2)" by (simp add: adjacent_def directions_def)
  have e: "entry [[1, 0, 1], [2, 1, 2], [3, 2, 3 :: enat]] (0, 1) = enat 2"
    "entry [[1, 0, 1], [2, 1, 2], [3, 2, 3 :: enat]] (0, 2) = enat 3"
    by (simp_all add: entry_def numeral_eq_enat)
  from compute_fire_time_propagation[OF wf] obtain ft where
    ft: "compute_fire_time [''.F.'', ''...'', ''D.S''] = Inr ft"
    and near: "\<forall>p q a b. passable [''.F.'', ''...'', ''D.S''] p \<longrightarrow>
          passable [''.F.'', ''...'', ''D.S''] q \<longrightarrow> adjacent p q \<longrightarrow>
          entry ft p = enat a \<longrightarrow> entry ft q = enat b \<longrightarrow> \<bar>int a - int b\<bar> \<le> 1"
    by blast
  from ft run have "ft = [[1, 0, 1], [2, 1, 2], [3, 2, 3]]" by simp
  with near p adj e
  have "\<bar>int 2 - int 3\<bar> \<le> 1" by blast
  with wf run p adj show ?thesis by simp
qed

end
